theory Spec2Isabelle
  imports Main "HOL-Library.Word"
begin

section \<open>Machine integers and library types\<close>

text \<open>
  The program of \<^verbatim>\<open>Multithreading/ThreadSynchronization.cpp\<close> computes with
  \<^verbatim>\<open>int\<close> (32 bits, two's complement) and compares its \<^verbatim>\<open>int\<close>s with
  \<^verbatim>\<open>std::string::length()\<close> and \<^verbatim>\<open>std::vector::size()\<close>, which are
  \<^verbatim>\<open>size_t\<close> (64 bits, unsigned). In such a comparison the \<^verbatim>\<open>int\<close> is
  converted to \<^verbatim>\<open>size_t\<close> by sign extension, so a negative \<^verbatim>\<open>int\<close>
  becomes a huge unsigned value. Addition on words wraps around.
\<close>

type_synonym cint = "32 word"

type_synonym size_t = "64 word"

text \<open>An opaque \<^verbatim>\<open>std::thread::id\<close>.\<close>

type_synonym tid = nat

definition size_t_of_int :: "cint \<Rightarrow> size_t" where
  "size_t_of_int i = scast i"

definition int_of_size_t :: "size_t \<Rightarrow> cint" where
  "int_of_size_t n = ucast n"

definition str_length :: "string \<Rightarrow> size_t" where
  "str_length s = of_nat (length s)"

definition vec_size :: "'a list \<Rightarrow> size_t" where
  "vec_size xs = of_nat (length xs)"

text \<open>
  \<^verbatim>\<open>std::string::operator[](pos)\<close>: the character at \<open>pos\<close> when \<open>pos < size()\<close>,
  the terminating null character when \<open>pos = size()\<close>, and undefined behaviour
  (\<open>None\<close>) beyond.
\<close>

definition str_at :: "string \<Rightarrow> nat \<Rightarrow> char option" where
  "str_at s pos =
     (if pos < length s then Some (s ! pos)
      else if pos = length s then Some (CHR 0x00)
      else None)"

text \<open>
  \<^verbatim>\<open>std::vector::operator[](pos)\<close>: defined only for \<open>pos < size()\<close>.
\<close>

definition vec_at :: "'a list \<Rightarrow> nat \<Rightarrow> 'a option" where
  "vec_at xs pos = (if pos < length xs then Some (xs ! pos) else None)"

text \<open>What is written to \<^verbatim>\<open>cout\<close>, one item for each \<^verbatim>\<open><<\<close>.\<close>

datatype out_item = OStr string | OInt cint | OTid tid | OChar char | OEndl

section \<open>The class MyPrinter\<close>

record MyPrinter =
  str :: string
  char_count :: cint
  thread_count :: cint
  threads :: "tid list"
  thread_ids :: "tid list"
  thread_id :: cint
  allowed_thread :: cint
  next_char :: cint
  mutex_lock :: "tid option"

text \<open>
  The constructor (lines 41-48). The vectors start empty and the mutex unlocked; the
  condition variable has no state of its own in this model.
\<close>

definition new_MyPrinter :: "string \<Rightarrow> cint \<Rightarrow> cint \<Rightarrow> MyPrinter" where
  "new_MyPrinter s c_count t_count =
     \<lparr> str = s, char_count = c_count, thread_count = t_count,
       threads = [], thread_ids = [],
       thread_id = 0, allowed_thread = 0, next_char = 0,
       mutex_lock = None \<rparr>"

text \<open>\<^verbatim>\<open>getCurrentThreadId\<close> (lines 54-62): the first position of \<open>id\<close>, or -1.\<close>

fun getCurrentThreadId_from :: "tid list \<Rightarrow> tid \<Rightarrow> cint \<Rightarrow> cint" where
  "getCurrentThreadId_from [] i k = - 1"
| "getCurrentThreadId_from (e # es) i k =
     (if e = i then k else getCurrentThreadId_from es i (k + 1))"

definition getCurrentThreadId :: "MyPrinter \<Rightarrow> tid \<Rightarrow> cint" where
  "getCurrentThreadId p i = getCurrentThreadId_from (thread_ids p) i 0"

subsection \<open>Signed increments\<close>

text \<open>
  An \<^verbatim>\<open>int\<close> below another one can be incremented without overflow. The loops of
  \<^verbatim>\<open>print_chars\<close> terminate for this reason.
\<close>

lemma sint_succ: "x <s (y::cint) \<Longrightarrow> sint (x + 1) = sint x + 1"
proof -
  assume "x <s y"
  then have "sint x < sint y" by (simp only: word_sless_alt)
  moreover have "sint y < 2^31" using sint_lt[of y] by simp
  moreover have "- (2^31) \<le> sint x" using sint_ge[of x] by simp
  ultimately have "- (2^31) \<le> sint x + 1 \<and> sint x + 1 < 2^31" by linarith
  then have "signed_take_bit 31 (sint x + 1) = sint x + 1"
    by (simp only: signed_take_bit_int_eq_self)
  then show ?thesis by (simp add: sint_word_ariths)
qed

subsection \<open>print_chars\<close>

text \<open>
  The first loop of \<^verbatim>\<open>print_chars\<close> (lines 164-170):
  \<^verbatim>\<open>for (int i = next_char; i < str.length() && printcount < char_count; i++)\<close>.
  It yields the values of \<open>i\<close> at which \<^verbatim>\<open>str[i]\<close> is read, and the final
  \<open>printcount\<close>. The comparison with \<^verbatim>\<open>str.length()\<close> is unsigned, the one with
  \<^verbatim>\<open>char_count\<close> is signed.
\<close>

function first_loop :: "string \<Rightarrow> cint \<Rightarrow> cint \<Rightarrow> cint \<Rightarrow> cint list \<times> cint" where
  "first_loop s cc i printcount =
     (if size_t_of_int i < str_length s \<and> printcount <s cc
      then (case first_loop s cc (i + 1) (printcount + 1) of
              (is, n) \<Rightarrow> (i # is, n))
      else ([], printcount))"
  by pat_completeness auto

termination
proof (relation "measure (\<lambda>(s, cc, i, printcount). nat (sint cc - sint printcount))", goal_cases)
  case 1
  show ?case by simp
next
  case (2 s cc i printcount)
  then show ?case using sint_succ[of printcount cc] by (simp add: word_sless_alt)
qed

text \<open>
  The second loop (lines 177-179):
  \<^verbatim>\<open>for (int i = 0; i < char_count - printcount; i++) cout << str[i];\<close>
  with \<open>lim\<close> the value of \<^verbatim>\<open>char_count - printcount\<close>.
\<close>

function second_loop :: "cint \<Rightarrow> cint \<Rightarrow> cint list" where
  "second_loop lim i = (if i <s lim then i # second_loop lim (i + 1) else [])"
  by pat_completeness auto

termination
proof (relation "measure (\<lambda>(lim, i). nat (sint lim - sint i))", goal_cases)
  case 1
  show ?case by simp
next
  case (2 lim i)
  then show ?case using sint_succ[of i lim] by (simp add: word_sless_alt)
qed

declare first_loop.simps [simp del] second_loop.simps [simp del]

text \<open>
  The positions at which one call of \<^verbatim>\<open>print_chars\<close> reads \<^verbatim>\<open>str\<close>, in order:
  those of the first loop, then those of the second when
  \<^verbatim>\<open>printcount < char_count\<close> (line 176).
\<close>

definition print_chars_reads :: "MyPrinter \<Rightarrow> nat list" where
  "print_chars_reads p =
     (case first_loop (str p) (char_count p) (next_char p) 0 of
        (is1, printcount) \<Rightarrow>
          map (\<lambda>i. unat (size_t_of_int i))
            (is1 @ (if printcount <s char_count p
                    then second_loop (char_count p - printcount) 0 else [])))"

text \<open>
  \<^verbatim>\<open>print_chars\<close> (lines 150-186), called by the thread \<open>self\<close>: what it writes to
  \<^verbatim>\<open>cout\<close> and the object afterwards (line 183 moves \<^verbatim>\<open>next_char\<close>), or
  \<open>None\<close> when a read of \<^verbatim>\<open>str\<close> is undefined.
\<close>

definition chunk_line :: "cint \<Rightarrow> string \<Rightarrow> out_item list" where
  "chunk_line k cs = [OStr ''ThreadId '', OInt k, OStr '' : ''] @ map OChar cs @ [OEndl]"

definition print_chars :: "MyPrinter \<Rightarrow> tid \<Rightarrow> (out_item list \<times> MyPrinter) option" where
  "print_chars p self =
     (case those (map (str_at (str p)) (print_chars_reads p)) of
        None \<Rightarrow> None
      | Some cs \<Rightarrow>
          Some (chunk_line (getCurrentThreadId p self) cs,
                p\<lparr>next_char := next_char p + char_count p\<rparr>))"

subsection \<open>The parts of print_thread and of run\<close>

text \<open>The test of \<^verbatim>\<open>waitforallthreadinit\<close> (line 96).\<close>

definition all_threads_init :: "MyPrinter \<Rightarrow> bool" where
  "all_threads_init p = (size_t_of_int (thread_count p) = vec_size (thread_ids p))"

text \<open>
  The predicate of \<^verbatim>\<open>cv.wait\<close> (line 124), evaluated by the thread \<open>self\<close>;
  \<open>None\<close> when \<^verbatim>\<open>thread_ids[allowed_thread]\<close> is out of range.
\<close>

definition wait_pred :: "MyPrinter \<Rightarrow> tid \<Rightarrow> bool option" where
  "wait_pred p self =
     (case vec_at (thread_ids p) (unat (size_t_of_int (allowed_thread p))) of
        None \<Rightarrow> None
      | Some e \<Rightarrow> Some (self = e))"

text \<open>Lines 131-133: move to the next allowed thread.\<close>

definition next_allowed_thread :: "MyPrinter \<Rightarrow> MyPrinter" where
  "next_allowed_thread p =
     (if allowed_thread p + 1 = thread_count p
      then p\<lparr>allowed_thread := 0\<rparr>
      else p\<lparr>allowed_thread := allowed_thread p + 1\<rparr>)"

text \<open>
  Lines 136-137: \<^verbatim>\<open>if (next_char >= str.length()) next_char -= str.length();\<close>.
  Both operands are converted to \<^verbatim>\<open>size_t\<close>, and the difference back to
  \<^verbatim>\<open>int\<close>.
\<close>

definition wrap_next_char :: "MyPrinter \<Rightarrow> MyPrinter" where
  "wrap_next_char p =
     (if str_length (str p) \<le> size_t_of_int (next_char p)
      then p\<lparr>next_char := int_of_size_t (size_t_of_int (next_char p) - str_length (str p))\<rparr>
      else p)"

text \<open>
  One turn: the statements of \<^verbatim>\<open>print_thread\<close> between the return of
  \<^verbatim>\<open>cv.wait\<close> and \<^verbatim>\<open>lock.unlock()\<close> (lines 128-137), executed by \<open>self\<close>.
\<close>

definition take_turn :: "MyPrinter \<Rightarrow> tid \<Rightarrow> (out_item list \<times> MyPrinter) option" where
  "take_turn p self =
     (case print_chars p self of
        None \<Rightarrow> None
      | Some (out, p') \<Rightarrow> Some (out, wrap_next_char (next_allowed_thread p')))"

text \<open>Line 78 of \<^verbatim>\<open>run\<close>: \<^verbatim>\<open>thread_ids.push_back(t.get_id())\<close>.\<close>

definition register_id :: "MyPrinter \<Rightarrow> tid \<Rightarrow> MyPrinter" where
  "register_id p t = p\<lparr>thread_ids := thread_ids p @ [t]\<rparr>"

text \<open>Line 81 of \<^verbatim>\<open>run\<close>: \<^verbatim>\<open>threads.push_back(move(t))\<close>.\<close>

definition store_thread :: "MyPrinter \<Rightarrow> tid \<Rightarrow> MyPrinter" where
  "store_thread p t = p\<lparr>threads := threads p @ [t]\<rparr>"

section \<open>The running program\<close>

text \<open>
  The threads of the program interleave. A configuration holds the shared object, what
  has been written to \<^verbatim>\<open>cout\<close>, and for each thread the statement it is about to
  execute. \<open>turns\<close> is a history variable: the thread of each call of
  \<^verbatim>\<open>print_chars\<close>, in order.
\<close>

text \<open>
  The statements of \<^verbatim>\<open>print_thread\<close> (lines 106-145). A worker at \<open>WBlocked\<close> is
  inside \<^verbatim>\<open>cv.wait\<close>, with the mutex released.
\<close>

datatype wpc =
    WInit       \<comment> \<open>line 111: \<^verbatim>\<open>waitforallthreadinit()\<close>\<close>
  | WSleep      \<comment> \<open>line 114: \<^verbatim>\<open>sleep_for\<close>\<close>
  | WLock       \<comment> \<open>line 117: \<^verbatim>\<open>unique_lock<mutex> lock(mutex_lock)\<close>\<close>
  | WWait       \<comment> \<open>line 123: the predicate of \<^verbatim>\<open>cv.wait\<close> is tested, mutex held\<close>
  | WBlocked    \<comment> \<open>line 123: blocked in \<^verbatim>\<open>cv.wait\<close>, mutex released\<close>
  | WPrint      \<comment> \<open>line 128: \<^verbatim>\<open>print_chars()\<close>\<close>
  | WAdvance    \<comment> \<open>lines 131-133\<close>
  | WWrap       \<comment> \<open>lines 136-137\<close>
  | WUnlock     \<comment> \<open>line 140: \<^verbatim>\<open>lock.unlock()\<close>\<close>
  | WNotify     \<comment> \<open>line 143: \<^verbatim>\<open>cv.notify_all()\<close>\<close>

text \<open>The statements of \<^verbatim>\<open>main\<close> once the object is constructed, inside \<^verbatim>\<open>run\<close>.\<close>

datatype mpc =
    MSpawn cint           \<comment> \<open>lines 69-72: test \<open>i < thread_count\<close>, create the thread\<close>
  | MPrint cint tid       \<comment> \<open>line 75\<close>
  | MPushId cint tid      \<comment> \<open>line 78\<close>
  | MPushThread cint tid  \<comment> \<open>line 81, then \<open>i++\<close>\<close>
  | MJoin cint            \<comment> \<open>lines 85-86\<close>
  | MExit cint            \<comment> \<open>\<^verbatim>\<open>main\<close> has returned this status\<close>

record config =
  printer :: MyPrinter
  main_pc :: mpc
  workers :: "tid \<Rightarrow> wpc option"
  cout :: "out_item list"
  turns :: "tid list"

text \<open>
  A step of the main thread. The argument \<open>t\<close> is the identifier the runtime gives
  to a thread created in this step; identifiers of live threads are distinct, so the
  step is possible only with a fresh one. The worker threads never return from
  \<^verbatim>\<open>print_thread\<close>, so a \<^verbatim>\<open>join\<close> never completes.
\<close>

definition main_step :: "config \<Rightarrow> tid \<Rightarrow> config option" where
  "main_step c t =
     (case main_pc c of
        MSpawn i \<Rightarrow>
          if i <s thread_count (printer c)
          then (if workers c t = None
                then Some (c\<lparr>workers := (workers c)(t \<mapsto> WInit), main_pc := MPrint i t\<rparr>)
                else None)
          else Some (c\<lparr>main_pc := MJoin 0\<rparr>)
      | MPrint i t' \<Rightarrow>
          Some (c\<lparr>cout := cout c @ [OStr ''Thread '', OTid t', OStr '' is '', OInt i, OEndl],
                  main_pc := MPushId i t'\<rparr>)
      | MPushId i t' \<Rightarrow>
          Some (c\<lparr>printer := register_id (printer c) t', main_pc := MPushThread i t'\<rparr>)
      | MPushThread i t' \<Rightarrow>
          Some (c\<lparr>printer := store_thread (printer c) t', main_pc := MSpawn (i + 1)\<rparr>)
      | MJoin i \<Rightarrow>
          if i <s thread_count (printer c) then None else Some (c\<lparr>main_pc := MExit 0\<rparr>)
      | MExit r \<Rightarrow> None)"

text \<open>
  The worker \<open>t\<close> moves to the statement \<open>pc\<close>; the mutex gets the owner \<open>m\<close>.
\<close>

definition set_pc :: "config \<Rightarrow> tid \<Rightarrow> wpc \<Rightarrow> config" where
  "set_pc c t pc = c\<lparr>workers := (workers c)(t \<mapsto> pc)\<rparr>"

definition set_mutex :: "config \<Rightarrow> tid option \<Rightarrow> config" where
  "set_mutex c m = c\<lparr>printer := (printer c)\<lparr>mutex_lock := m\<rparr>\<rparr>"

text \<open>
  A step of the worker \<open>t\<close>. Locking needs the mutex free. A worker blocked in
  \<^verbatim>\<open>cv.wait\<close> may wake at any time (a notification or a spurious wakeup), locks the
  mutex again and tests the predicate again. At \<open>WInit\<close> the test of
  \<^verbatim>\<open>waitforallthreadinit\<close> is taken here as the statement reads: the worker leaves
  the loop when the test holds and goes round it otherwise. The other outcomes of this
  unsynchronised read are the steps \<open>race_step\<close> below.
\<close>

definition worker_step :: "config \<Rightarrow> tid \<Rightarrow> config option" where
  "worker_step c t =
     (case workers c t of
        None \<Rightarrow> None
      | Some WInit \<Rightarrow> Some (if all_threads_init (printer c) then set_pc c t WSleep else c)
      | Some WSleep \<Rightarrow> Some (set_pc c t WLock)
      | Some WLock \<Rightarrow>
          if mutex_lock (printer c) = None
          then Some (set_pc (set_mutex c (Some t)) t WWait) else None
      | Some WWait \<Rightarrow>
          (case wait_pred (printer c) t of
             None \<Rightarrow> None
           | Some True \<Rightarrow> Some (set_pc c t WPrint)
           | Some False \<Rightarrow> Some (set_pc (set_mutex c None) t WBlocked))
      | Some WBlocked \<Rightarrow>
          if mutex_lock (printer c) = None
          then Some (set_pc (set_mutex c (Some t)) t WWait) else None
      | Some WPrint \<Rightarrow>
          (case print_chars (printer c) t of
             None \<Rightarrow> None
           | Some (out, p') \<Rightarrow>
               Some (set_pc (c\<lparr>printer := p', cout := cout c @ out, turns := turns c @ [t]\<rparr>)
                       t WAdvance))
      | Some WAdvance \<Rightarrow>
          Some (set_pc (c\<lparr>printer := next_allowed_thread (printer c)\<rparr>) t WWrap)
      | Some WWrap \<Rightarrow>
          Some (set_pc (c\<lparr>printer := wrap_next_char (printer c)\<rparr>) t WUnlock)
      | Some WUnlock \<Rightarrow> Some (set_pc (set_mutex c None) t WNotify)
      | Some WNotify \<Rightarrow> Some (set_pc c t WInit))"

text \<open>
  \<^verbatim>\<open>waitforallthreadinit\<close> (lines 94-99) reads \<^verbatim>\<open>thread_ids.size()\<close> with no lock
  and no atomic while the main thread appends to \<^verbatim>\<open>thread_ids\<close> (line 78): a data
  race, in a loop without side effects, which a compiler may assume to terminate. The
  worker may so leave the loop whatever the table holds. \<open>race_step\<close> is this outcome
  for the worker \<open>t\<close>.
\<close>

definition race_step :: "config \<Rightarrow> tid \<Rightarrow> config option" where
  "race_step c t =
     (case workers c t of
        Some WInit \<Rightarrow> Some (set_pc c t WSleep)
      | _ \<Rightarrow> None)"

text \<open>
  The events of a run: a step of the main thread, a step of a worker as its statements
  read, and a worker leaving \<^verbatim>\<open>waitforallthreadinit\<close> through the race.
\<close>

datatype event = Main tid | Worker tid | Race tid

fun step :: "config \<Rightarrow> event \<Rightarrow> config option" where
  "step c (Main t) = main_step c t"
| "step c (Worker t) = worker_step c t"
| "step c (Race t) = race_step c t"

text \<open>A schedule is the list of the events of a run, in order.\<close>

fun exec :: "config \<Rightarrow> event list \<Rightarrow> config option" where
  "exec c [] = Some c"
| "exec c (e # es) = (case step c e of None \<Rightarrow> None | Some c' \<Rightarrow> exec c' es)"

text \<open>
  The configuration when \<^verbatim>\<open>main\<close> calls \<^verbatim>\<open>p.run()\<close> (line 214) on the object
  constructed at line 211.
\<close>

definition run_init :: "string \<Rightarrow> cint \<Rightarrow> cint \<Rightarrow> config" where
  "run_init s c_count t_count =
     \<lparr> printer = new_MyPrinter s c_count t_count, main_pc = MSpawn 0,
       workers = Map.empty, cout = [], turns = [] \<rparr>"

text \<open>The statements of a turn: between the return of \<^verbatim>\<open>cv.wait\<close> and the unlock.\<close>

fun in_turn :: "wpc \<Rightarrow> bool" where
  "in_turn WPrint = True"
| "in_turn WAdvance = True"
| "in_turn WWrap = True"
| "in_turn _ = False"

text \<open>The statements at which a worker holds the mutex.\<close>

fun holds_mutex :: "wpc \<Rightarrow> bool" where
  "holds_mutex WWait = True"
| "holds_mutex WPrint = True"
| "holds_mutex WAdvance = True"
| "holds_mutex WWrap = True"
| "holds_mutex WUnlock = True"
| "holds_mutex _ = False"

text \<open>
  The events of the worker threads.
\<close>

fun is_worker :: "event \<Rightarrow> bool" where
  "is_worker (Worker t) = True"
| "is_worker (Race t) = True"
| "is_worker (Main t) = False"

section \<open>The driver\<close>

text \<open>
  \<^verbatim>\<open>atoi\<close> of the C library: leading white space is skipped, one sign is read, and the
  decimal digits that follow give the value; the rest of the string is ignored, and
  without a digit the value is 0. A value that does not fit an \<^verbatim>\<open>int\<close> is reduced
  modulo \<open>2 ^ 32\<close> here.
\<close>

definition isspace :: "char \<Rightarrow> bool" where
  "isspace c = (c \<in> set [CHR '' '', CHR 0x09, CHR 0x0A, CHR 0x0B, CHR 0x0C, CHR 0x0D])"

definition isdigit :: "char \<Rightarrow> bool" where
  "isdigit c = (48 \<le> (of_char c :: nat) \<and> (of_char c :: nat) \<le> 57)"

fun atoi_digits :: "string \<Rightarrow> int \<Rightarrow> int" where
  "atoi_digits [] acc = acc"
| "atoi_digits (c # cs) acc =
     (if isdigit c then atoi_digits cs (10 * acc + (int (of_char c) - 48)) else acc)"

fun atoi_signed :: "string \<Rightarrow> cint" where
  "atoi_signed [] = 0"
| "atoi_signed (c # cs) =
     (if c = CHR ''-'' then of_int (- atoi_digits cs 0)
      else if c = CHR ''+'' then of_int (atoi_digits cs 0)
      else of_int (atoi_digits (c # cs) 0))"

definition atoi :: "string \<Rightarrow> cint" where
  "atoi s = atoi_signed (dropWhile isspace s)"

text \<open>
  \<^verbatim>\<open>main\<close> (lines 189-217) up to the call of \<^verbatim>\<open>run\<close>: with a wrong number of
  arguments it writes the usage line and returns 1; otherwise the program runs from
  \<open>run_init\<close>. \<open>argv\<close> includes the program name.
\<close>

datatype process = Exited cint "out_item list" | Running config

definition main :: "string list \<Rightarrow> process" where
  "main argv =
     (if length argv \<noteq> 4
      then Exited 1 [OStr ''Please provide 3 arguments - '',
                     OStr ''a string, char count & thread count'', OEndl]
      else Running (run_init (argv ! 1) (atoi (argv ! 2)) (atoi (argv ! 3))))"

text \<open>A decimal numeral: one or more decimal digits, after an optional sign.\<close>

definition is_decimal_numeral :: "string \<Rightarrow> bool" where
  "is_decimal_numeral s =
     (case s of
        [] \<Rightarrow> False
      | c # cs \<Rightarrow>
          if c = CHR ''-'' \<or> c = CHR ''+'' then cs \<noteq> [] \<and> list_all isdigit cs
          else list_all isdigit (c # cs))"

text \<open>No digit follows the leading white space and the optional sign.\<close>

fun no_digit_first :: "string \<Rightarrow> bool" where
  "no_digit_first [] = True"
| "no_digit_first (c # cs) = (\<not> isdigit c)"

fun no_digit_after_sign :: "string \<Rightarrow> bool" where
  "no_digit_after_sign [] = True"
| "no_digit_after_sign (c # cs) =
     (if c = CHR ''-'' \<or> c = CHR ''+'' then no_digit_first cs else \<not> isdigit c)"

definition no_leading_digit :: "string \<Rightarrow> bool" where
  "no_leading_digit s = no_digit_after_sign (dropWhile isspace s)"

section \<open>Turns in sequence\<close>

text \<open>
  The thread that the predicate of \<^verbatim>\<open>cv.wait\<close> lets through:
  \<^verbatim>\<open>thread_ids[allowed_thread]\<close>.
\<close>

definition acting :: "MyPrinter \<Rightarrow> tid option" where
  "acting p = vec_at (thread_ids p) (unat (size_t_of_int (allowed_thread p)))"

text \<open>
  \<open>k\<close> turns one after the other, each taken by the thread the predicate lets through:
  what they write and the object afterwards.
\<close>

fun run_turns :: "nat \<Rightarrow> MyPrinter \<Rightarrow> (out_item list \<times> MyPrinter) option" where
  "run_turns 0 p = Some ([], p)"
| "run_turns (Suc k) p =
     (case run_turns k p of
        None \<Rightarrow> None
      | Some (outs, p') \<Rightarrow>
          (case acting p' of
             None \<Rightarrow> None
           | Some t \<Rightarrow>
               (case take_turn p' t of
                  None \<Rightarrow> None
                | Some (out, p'') \<Rightarrow> Some (outs @ out, p''))))"

definition cursor_after :: "nat \<Rightarrow> MyPrinter \<Rightarrow> cint option" where
  "cursor_after k p = (case run_turns k p of None \<Rightarrow> None | Some (out, p') \<Rightarrow> Some (next_char p'))"

text \<open>The object once \<^verbatim>\<open>run\<close> has created the threads \<open>ids\<close> (lines 69-82).\<close>

definition registered :: "string \<Rightarrow> cint \<Rightarrow> cint \<Rightarrow> tid list \<Rightarrow> MyPrinter" where
  "registered s c n ids = (new_MyPrinter s c n)\<lparr>threads := ids, thread_ids := ids\<rparr>"

section \<open>Schedules\<close>

text \<open>
  \<^verbatim>\<open>run\<close> with two workers \<open>10\<close> and \<open>11\<close>: the nine steps of the main thread up to
  the first \<^verbatim>\<open>join\<close>.
\<close>

definition startup_schedule :: "event list" where
  "startup_schedule = replicate 4 (Main 10) @ replicate 4 (Main 11) @ [Main 0]"

text \<open>
  One iteration of the loop of \<^verbatim>\<open>print_thread\<close> by the worker \<open>t\<close>, when nothing
  makes it wait: nine steps.
\<close>

definition one_iteration :: "tid \<Rightarrow> event list" where
  "one_iteration t = replicate 9 (Worker t)"

text \<open>
  A schedule of the program with two workers \<open>10\<close> and \<open>11\<close>: \<^verbatim>\<open>run\<close> creates both;
  worker \<open>11\<close> locks the mutex first, finds that it is not its turn and blocks; worker
  \<open>10\<close> takes a turn; worker \<open>11\<close> wakes and takes its turn; then each takes one more.
\<close>

definition two_workers_schedule :: "event list" where
  "two_workers_schedule =
     replicate 4 (Main 10) @ replicate 4 (Main 11) @ [Main 0]
     @ replicate 4 (Worker 11) @ replicate 9 (Worker 10)
     @ replicate 7 (Worker 11) @ replicate 9 (Worker 10) @ replicate 9 (Worker 11)"

text \<open>
  After \<^verbatim>\<open>run\<close> has created both workers, worker \<open>10\<close> goes up to the call of
  \<^verbatim>\<open>print_chars\<close> and worker \<open>11\<close> up to the lock.
\<close>

definition contended_schedule :: "event list" where
  "contended_schedule =
     replicate 4 (Main 10) @ replicate 4 (Main 11) @ [Main 0]
     @ replicate 4 (Worker 10) @ replicate 2 (Worker 11)"

text \<open>
  After \<^verbatim>\<open>run\<close> has created both workers, worker \<open>10\<close> goes up to the increment of
  \<^verbatim>\<open>allowed_thread\<close>.
\<close>

definition advancing_schedule :: "event list" where
  "advancing_schedule =
     replicate 4 (Main 10) @ replicate 4 (Main 11) @ [Main 0] @ replicate 5 (Worker 10)"

text \<open>
  Worker \<open>10\<close> passes the barrier as soon as \<open>11\<close> is registered, before
  \<^verbatim>\<open>run\<close> has stored the second thread object.
\<close>

definition early_pass_schedule :: "event list" where
  "early_pass_schedule = replicate 4 (Main 10) @ replicate 3 (Main 11) @ [Worker 10]"

text \<open>
  \<^verbatim>\<open>run\<close> has created and registered worker \<open>10\<close> and not yet created worker
  \<open>11\<close>; worker \<open>10\<close> leaves \<^verbatim>\<open>waitforallthreadinit\<close> through the race and goes
  on to the end of \<^verbatim>\<open>print_chars\<close>.
\<close>

definition early_turn_schedule :: "event list" where
  "early_turn_schedule = replicate 3 (Main 10) @ [Race 10] @ replicate 4 (Worker 10)"

text \<open>
  What is looked at in the configuration a schedule ends in: the object, the place of the
  main thread, the history of turns and the places of two workers.
\<close>

definition observe ::
  "config option \<Rightarrow> tid \<Rightarrow> tid \<Rightarrow> (MyPrinter \<times> mpc \<times> tid list \<times> wpc option \<times> wpc option) option" where
  "observe r t u =
     (case r of
        None \<Rightarrow> None
      | Some c \<Rightarrow> Some (printer c, main_pc c, turns c, workers c t, workers c u))"

section \<open>Invariants of the running program\<close>

text \<open>
  The main thread: where it stands in \<^verbatim>\<open>run\<close> fixes the length of \<open>thread_ids\<close>
  and the set of the threads created so far. In particular \<open>thread_ids\<close> is never
  longer than \<open>thread_count\<close>.
\<close>

fun main_inv_at :: "mpc \<Rightarrow> int \<Rightarrow> tid list \<Rightarrow> tid set \<Rightarrow> bool" where
  "main_inv_at (MSpawn i) n ids W =
     (0 \<le> sint i \<and> int (length ids) = sint i \<and> (sint i \<le> n \<or> i = 0) \<and> W = set ids)"
| "main_inv_at (MPrint i t) n ids W =
     (0 \<le> sint i \<and> sint i < n \<and> int (length ids) = sint i \<and> W = insert t (set ids)
      \<and> t \<notin> set ids)"
| "main_inv_at (MPushId i t) n ids W =
     (0 \<le> sint i \<and> sint i < n \<and> int (length ids) = sint i \<and> W = insert t (set ids)
      \<and> t \<notin> set ids)"
| "main_inv_at (MPushThread i t) n ids W =
     (0 \<le> sint i \<and> sint i < n \<and> int (length ids) = sint i + 1 \<and> W = set ids)"
| "main_inv_at (MJoin i) n ids W = (i = 0 \<and> int (length ids) = max n 0 \<and> W = set ids)"
| "main_inv_at (MExit r) n ids W = (r = 0 \<and> n \<le> 0 \<and> ids = [] \<and> W = {})"

definition main_inv :: "config \<Rightarrow> bool" where
  "main_inv c =
     (distinct (thread_ids (printer c))
      \<and> main_inv_at (main_pc c) (sint (thread_count (printer c))) (thread_ids (printer c))
            (dom (workers c)))"

text \<open>
  The mutex: its owner is the one worker that stands between locking and unlocking.
\<close>

definition lock_inv :: "config \<Rightarrow> bool" where
  "lock_inv c =
     ((\<forall>t pc. workers c t = Some pc \<longrightarrow> (holds_mutex pc \<longleftrightarrow> mutex_lock (printer c) = Some t))
      \<and> (\<forall>t. mutex_lock (printer c) = Some t \<longrightarrow> workers c t \<noteq> None))"

text \<open>The statement at which the thread that holds the mutex stands.\<close>

definition holder_pc :: "config \<Rightarrow> wpc option" where
  "holder_pc c = (case mutex_lock (printer c) of None \<Rightarrow> None | Some t \<Rightarrow> workers c t)"

text \<open>
  The turn index \<open>a\<close>, the table \<open>ids\<close> and the history \<open>ts\<close> of turns, with the
  worker count \<open>n\<close>, the owner \<open>m\<close> of the mutex and the statement \<open>hp\<close> at which it
  stands: the turn number \<open>j\<close> was taken by the thread in the slot \<open>j mod n\<close> of the
  table, a slot that was filled by then, and the turn index is the number of turns modulo
  \<open>n\<close>, one less between \<^verbatim>\<open>print_chars\<close> and the increment.
\<close>

definition turn_ok ::
  "int \<Rightarrow> int \<Rightarrow> tid list \<Rightarrow> tid list \<Rightarrow> tid option \<Rightarrow> wpc option \<Rightarrow> bool" where
  "turn_ok a n ids ts m hp =
     (0 \<le> a
      \<and> (ts \<noteq> [] \<longrightarrow> 0 < n)
      \<and> (\<forall>j < length ts. j mod nat n < length ids)
      \<and> ts = map (\<lambda>j. ids ! (j mod nat n)) [0..<length ts]
      \<and> (if hp = Some WAdvance
          then ts \<noteq> [] \<and> a = int ((length ts - 1) mod nat n)
          else a = int (length ts mod nat n))
      \<and> (hp = Some WPrint \<or> hp = Some WAdvance
           \<longrightarrow> nat a < length ids \<and> m = Some (ids ! nat a)))"

definition turn_inv :: "config \<Rightarrow> bool" where
  "turn_inv c =
     turn_ok (sint (allowed_thread (printer c))) (sint (thread_count (printer c)))
       (thread_ids (printer c)) (turns c) (mutex_lock (printer c)) (holder_pc c)"

text \<open>
  All of them together.
\<close>

definition run_inv :: "config \<Rightarrow> bool" where
  "run_inv c = (main_inv c \<and> lock_inv c \<and> turn_inv c)"

section \<open>Conversions between int and size_t\<close>

text \<open>
  A non-negative \<^verbatim>\<open>int\<close> keeps its value as a \<^verbatim>\<open>size_t\<close>; a negative one
  becomes its value plus \<open>2 ^ 64\<close>. Lengths below \<open>2 ^ 31\<close> are represented exactly.
\<close>

lemma uint_size_t_of_int: "uint (size_t_of_int x) = sint x mod 2^64"
  by (simp only: size_t_of_int_def scast_eq uint_word_of_int) (simp only: len_of_numeral_defs, simp)

lemma sint_cint_bounds: "- (2^31) \<le> sint (x::cint)" "sint (x::cint) < 2^31"
  using sint_ge[of x] sint_lt[of x] by simp_all

lemma uint_size_t_nonneg: "0 \<le> sint x \<Longrightarrow> uint (size_t_of_int x) = sint x"
proof -
  assume a: "0 \<le> sint x"
  have "sint x < 2^64" using sint_cint_bounds(2)[of x] by simp
  with a have "sint x mod 2^64 = sint x" by (intro mod_pos_pos_trivial)
  then show ?thesis by (simp only: uint_size_t_of_int)
qed

lemma unat_size_t_nonneg: "0 \<le> sint x \<Longrightarrow> unat (size_t_of_int x) = nat (sint x)"
  by (simp only: unat_eq_nat_uint uint_size_t_nonneg)

lemma neg_mod_2_64: "- (2^31) \<le> (k::int) \<Longrightarrow> k < 0 \<Longrightarrow> k mod 2^64 = k + 2^64"
proof -
  assume a: "- (2^31) \<le> k" "k < 0"
  have "k mod 2^64 = (k + 2^64) mod 2^64" by (simp only: mod_add_self2)
  also have "\<dots> = k + 2^64" using a by (intro mod_pos_pos_trivial) simp_all
  finally show ?thesis .
qed

lemma uint_size_t_neg: "sint x < 0 \<Longrightarrow> uint (size_t_of_int x) = sint x + 2^64"
  using neg_mod_2_64[OF sint_cint_bounds(1)[of x]] by (simp only: uint_size_t_of_int)

lemma unat_vec_size: "length xs < 2^31 \<Longrightarrow> unat (vec_size xs) = length xs"
  by (simp add: vec_size_def unat_of_nat take_bit_nat_eq_self)

lemma unat_str_length: "length xs < 2^31 \<Longrightarrow> unat (str_length xs) = length xs"
  by (simp add: str_length_def unat_of_nat take_bit_nat_eq_self)

lemma uint_vec_size: "length xs < 2^31 \<Longrightarrow> uint (vec_size xs) = int (length xs)"
  by (simp only: uint_nat unat_vec_size)

lemma uint_str_length: "length xs < 2^31 \<Longrightarrow> uint (str_length xs) = int (length xs)"
  by (simp only: uint_nat unat_str_length)

lemma all_threads_init_iff:
  assumes "length (thread_ids p) < 2^31"
  shows "all_threads_init p \<longleftrightarrow> sint (thread_count p) = int (length (thread_ids p))"
proof -
  have "all_threads_init p
        \<longleftrightarrow> uint (size_t_of_int (thread_count p)) = int (length (thread_ids p))"
    by (simp only: all_threads_init_def word_uint_eq_iff uint_vec_size[OF assms])
  also have "\<dots> \<longleftrightarrow> sint (thread_count p) = int (length (thread_ids p))"
  proof (cases "0 \<le> sint (thread_count p)")
    case True
    then show ?thesis by (simp only: uint_size_t_nonneg)
  next
    case False
    then have n: "sint (thread_count p) < 0" by simp
    have "int (length (thread_ids p)) < 2^31" using assms by simp
    moreover have "- (2^31) \<le> sint (thread_count p)" by (rule sint_cint_bounds)
    ultimately have "sint (thread_count p) + 2^64 \<noteq> int (length (thread_ids p))" by simp
    with n show ?thesis by (simp add: uint_size_t_neg)
  qed
  finally show ?thesis .
qed

lemma cint_eq_iff: "(x::cint) = y \<longleftrightarrow> sint x = sint y"
  by (rule word_eq_iff_signed)

lemma next_allowed_sint:
  assumes "0 \<le> sint (allowed_thread p)" "sint (allowed_thread p) < sint (thread_count p)"
  shows "sint (allowed_thread (next_allowed_thread p))
         = (sint (allowed_thread p) + 1) mod sint (thread_count p)"
proof -
  have "allowed_thread p <s thread_count p" using assms(2) by (simp only: word_sless_alt)
  then have s: "sint (allowed_thread p + 1) = sint (allowed_thread p) + 1" by (rule sint_succ)
  show ?thesis
  proof (cases "allowed_thread p + 1 = thread_count p")
    case True
    then have "sint (allowed_thread p) + 1 = sint (thread_count p)" using s by simp
    then show ?thesis using True by (simp add: next_allowed_thread_def)
  next
    case False
    then have "sint (allowed_thread p) + 1 \<noteq> sint (thread_count p)"
      using s by (simp add: cint_eq_iff)
    with assms have "(sint (allowed_thread p) + 1) mod sint (thread_count p)
        = sint (allowed_thread p) + 1" by (intro mod_pos_pos_trivial) simp_all
    then show ?thesis using False s by (simp add: next_allowed_thread_def)
  qed
qed

lemma wait_pred_Some:
  assumes "0 \<le> sint (allowed_thread p)" "wait_pred p t = Some b"
  shows "nat (sint (allowed_thread p)) < length (thread_ids p)"
    and "b \<longleftrightarrow> t = thread_ids p ! nat (sint (allowed_thread p))"
  using assms(2)
  by (auto simp add: wait_pred_def vec_at_def unat_size_t_nonneg[OF assms(1)]
      split: option.splits if_splits)

section \<open>Case analysis of the steps\<close>

lemma worker_step_simps:
  "workers c t = None \<Longrightarrow> worker_step c t = None"
  "workers c t = Some WInit \<Longrightarrow>
     worker_step c t = Some (if all_threads_init (printer c) then set_pc c t WSleep else c)"
  "workers c t = Some WSleep \<Longrightarrow> worker_step c t = Some (set_pc c t WLock)"
  "workers c t = Some WLock \<Longrightarrow>
     worker_step c t =
       (if mutex_lock (printer c) = None
        then Some (set_pc (set_mutex c (Some t)) t WWait) else None)"
  "workers c t = Some WWait \<Longrightarrow>
     worker_step c t =
       (case wait_pred (printer c) t of
          None \<Rightarrow> None
        | Some True \<Rightarrow> Some (set_pc c t WPrint)
        | Some False \<Rightarrow> Some (set_pc (set_mutex c None) t WBlocked))"
  "workers c t = Some WBlocked \<Longrightarrow>
     worker_step c t =
       (if mutex_lock (printer c) = None
        then Some (set_pc (set_mutex c (Some t)) t WWait) else None)"
  "workers c t = Some WPrint \<Longrightarrow>
     worker_step c t =
       (case print_chars (printer c) t of
          None \<Rightarrow> None
        | Some (out, p') \<Rightarrow>
            Some (set_pc (c\<lparr>printer := p', cout := cout c @ out, turns := turns c @ [t]\<rparr>)
                    t WAdvance))"
  "workers c t = Some WAdvance \<Longrightarrow>
     worker_step c t = Some (set_pc (c\<lparr>printer := next_allowed_thread (printer c)\<rparr>) t WWrap)"
  "workers c t = Some WWrap \<Longrightarrow>
     worker_step c t = Some (set_pc (c\<lparr>printer := wrap_next_char (printer c)\<rparr>) t WUnlock)"
  "workers c t = Some WUnlock \<Longrightarrow> worker_step c t = Some (set_pc (set_mutex c None) t WNotify)"
  "workers c t = Some WNotify \<Longrightarrow> worker_step c t = Some (set_pc c t WInit)"
  by (simp_all add: worker_step_def)

lemma worker_step_cases:
  assumes "worker_step c t = Some c'"
  obtains
    (spin) "workers c t = Some WInit" "\<not> all_threads_init (printer c)" "c' = c"
  | (pass) "workers c t = Some WInit" "all_threads_init (printer c)" "c' = set_pc c t WSleep"
  | (sleep) "workers c t = Some WSleep" "c' = set_pc c t WLock"
  | (lock) "workers c t = Some WLock" "mutex_lock (printer c) = None"
      "c' = set_pc (set_mutex c (Some t)) t WWait"
  | (go) "workers c t = Some WWait" "wait_pred (printer c) t = Some True"
      "c' = set_pc c t WPrint"
  | (block) "workers c t = Some WWait" "wait_pred (printer c) t = Some False"
      "c' = set_pc (set_mutex c None) t WBlocked"
  | (wake) "workers c t = Some WBlocked" "mutex_lock (printer c) = None"
      "c' = set_pc (set_mutex c (Some t)) t WWait"
  | (print) out p' where "workers c t = Some WPrint"
      "print_chars (printer c) t = Some (out, p')"
      "c' = set_pc (c\<lparr>printer := p', cout := cout c @ out, turns := turns c @ [t]\<rparr>) t WAdvance"
  | (advance) "workers c t = Some WAdvance"
      "c' = set_pc (c\<lparr>printer := next_allowed_thread (printer c)\<rparr>) t WWrap"
  | (wrap) "workers c t = Some WWrap"
      "c' = set_pc (c\<lparr>printer := wrap_next_char (printer c)\<rparr>) t WUnlock"
  | (unlock) "workers c t = Some WUnlock" "c' = set_pc (set_mutex c None) t WNotify"
  | (notify) "workers c t = Some WNotify" "c' = set_pc c t WInit"
proof (cases "workers c t")
  case None
  with assms show ?thesis by (simp add: worker_step_simps)
next
  case (Some pc)
  show ?thesis
  proof (cases pc)
    case WInit
    with Some have w: "workers c t = Some WInit" by simp
    show ?thesis
    proof (cases "all_threads_init (printer c)")
      case True
      with assms w have "c' = set_pc c t WSleep" by (simp add: worker_step_simps)
      with w True show ?thesis by (rule pass)
    next
      case False
      with assms w have "c' = c" by (simp add: worker_step_simps)
      with w False show ?thesis by (rule spin)
    qed
  next
    case WSleep
    with Some have w: "workers c t = Some WSleep" by simp
    with assms have "c' = set_pc c t WLock" by (simp add: worker_step_simps)
    with w show ?thesis by (rule sleep)
  next
    case WLock
    with Some have w: "workers c t = Some WLock" by simp
    with assms have "mutex_lock (printer c) = None \<and> c' = set_pc (set_mutex c (Some t)) t WWait"
      by (simp add: worker_step_simps split: if_splits)
    with w show ?thesis using lock by blast
  next
    case WWait
    with Some have w: "workers c t = Some WWait" by simp
    with assms have
      "(wait_pred (printer c) t = Some True \<and> c' = set_pc c t WPrint)
       \<or> (wait_pred (printer c) t = Some False \<and> c' = set_pc (set_mutex c None) t WBlocked)"
      by (simp add: worker_step_simps split: option.splits bool.splits)
    with w show ?thesis using go block by blast
  next
    case WBlocked
    with Some have w: "workers c t = Some WBlocked" by simp
    with assms have "mutex_lock (printer c) = None \<and> c' = set_pc (set_mutex c (Some t)) t WWait"
      by (simp add: worker_step_simps split: if_splits)
    with w show ?thesis using wake by blast
  next
    case WPrint
    with Some have w: "workers c t = Some WPrint" by simp
    with assms have
      "\<exists>out p'. print_chars (printer c) t = Some (out, p')
         \<and> c' = set_pc (c\<lparr>printer := p', cout := cout c @ out, turns := turns c @ [t]\<rparr>) t WAdvance"
      by (simp add: worker_step_simps split: option.splits prod.splits)
    with w show ?thesis using print by blast
  next
    case WAdvance
    with Some have w: "workers c t = Some WAdvance" by simp
    with assms have "c' = set_pc (c\<lparr>printer := next_allowed_thread (printer c)\<rparr>) t WWrap"
      by (simp add: worker_step_simps)
    with w show ?thesis by (rule advance)
  next
    case WWrap
    with Some have w: "workers c t = Some WWrap" by simp
    with assms have "c' = set_pc (c\<lparr>printer := wrap_next_char (printer c)\<rparr>) t WUnlock"
      by (simp add: worker_step_simps)
    with w show ?thesis by (rule wrap)
  next
    case WUnlock
    with Some have w: "workers c t = Some WUnlock" by simp
    with assms have "c' = set_pc (set_mutex c None) t WNotify" by (simp add: worker_step_simps)
    with w show ?thesis by (rule unlock)
  next
    case WNotify
    with Some have w: "workers c t = Some WNotify" by simp
    with assms have "c' = set_pc c t WInit" by (simp add: worker_step_simps)
    with w show ?thesis by (rule notify)
  qed
qed

lemma main_step_cases:
  assumes "main_step c t = Some c'"
  obtains
    (spawn) i where "main_pc c = MSpawn i" "i <s thread_count (printer c)" "workers c t = None"
      "c' = c\<lparr>workers := (workers c)(t \<mapsto> WInit), main_pc := MPrint i t\<rparr>"
  | (spawned) i where "main_pc c = MSpawn i" "\<not> i <s thread_count (printer c)"
      "c' = c\<lparr>main_pc := MJoin 0\<rparr>"
  | (print) i t' where "main_pc c = MPrint i t'"
      "c' = c\<lparr>cout := cout c @ [OStr ''Thread '', OTid t', OStr '' is '', OInt i, OEndl],
                main_pc := MPushId i t'\<rparr>"
  | (push_id) i t' where "main_pc c = MPushId i t'"
      "c' = c\<lparr>printer := register_id (printer c) t', main_pc := MPushThread i t'\<rparr>"
  | (push_thread) i t' where "main_pc c = MPushThread i t'"
      "c' = c\<lparr>printer := store_thread (printer c) t', main_pc := MSpawn (i + 1)\<rparr>"
  | (joined) i where "main_pc c = MJoin i" "\<not> i <s thread_count (printer c)"
      "c' = c\<lparr>main_pc := MExit 0\<rparr>"
  using assms
  by (auto simp: main_step_def split: mpc.splits if_splits)

lemma worker_step_pc: "worker_step c t = Some c' \<Longrightarrow> \<exists>pc. workers c t = Some pc"
  by (cases "workers c t") (simp_all add: worker_step_simps)

lemma race_step_Some:
  assumes "race_step c t = Some c'"
  shows "workers c t = Some WInit" and "c' = set_pc c t WSleep"
  using assms by (auto simp add: race_step_def split: option.splits wpc.splits)

section \<open>What a step leaves unchanged\<close>

lemma set_pc_simps [simp]:
  "printer (set_pc c t pc) = printer c"
  "main_pc (set_pc c t pc) = main_pc c"
  "workers (set_pc c t pc) = (workers c)(t \<mapsto> pc)"
  "cout (set_pc c t pc) = cout c"
  "turns (set_pc c t pc) = turns c"
  by (simp_all add: set_pc_def)

lemma set_mutex_simps [simp]:
  "printer (set_mutex c m) = (printer c)\<lparr>mutex_lock := m\<rparr>"
  "main_pc (set_mutex c m) = main_pc c"
  "workers (set_mutex c m) = workers c"
  "cout (set_mutex c m) = cout c"
  "turns (set_mutex c m) = turns c"
  by (simp_all add: set_mutex_def)

lemma next_allowed_thread_simps [simp]:
  "str (next_allowed_thread p) = str p"
  "char_count (next_allowed_thread p) = char_count p"
  "thread_count (next_allowed_thread p) = thread_count p"
  "threads (next_allowed_thread p) = threads p"
  "thread_ids (next_allowed_thread p) = thread_ids p"
  "thread_id (next_allowed_thread p) = thread_id p"
  "next_char (next_allowed_thread p) = next_char p"
  "mutex_lock (next_allowed_thread p) = mutex_lock p"
  by (simp_all add: next_allowed_thread_def)

lemma wrap_next_char_simps [simp]:
  "str (wrap_next_char p) = str p"
  "char_count (wrap_next_char p) = char_count p"
  "thread_count (wrap_next_char p) = thread_count p"
  "threads (wrap_next_char p) = threads p"
  "thread_ids (wrap_next_char p) = thread_ids p"
  "thread_id (wrap_next_char p) = thread_id p"
  "allowed_thread (wrap_next_char p) = allowed_thread p"
  "mutex_lock (wrap_next_char p) = mutex_lock p"
  by (simp_all add: wrap_next_char_def)

lemma register_id_simps [simp]:
  "str (register_id p t) = str p"
  "char_count (register_id p t) = char_count p"
  "thread_count (register_id p t) = thread_count p"
  "threads (register_id p t) = threads p"
  "thread_ids (register_id p t) = thread_ids p @ [t]"
  "thread_id (register_id p t) = thread_id p"
  "allowed_thread (register_id p t) = allowed_thread p"
  "next_char (register_id p t) = next_char p"
  "mutex_lock (register_id p t) = mutex_lock p"
  by (simp_all add: register_id_def)

lemma store_thread_simps [simp]:
  "str (store_thread p t) = str p"
  "char_count (store_thread p t) = char_count p"
  "thread_count (store_thread p t) = thread_count p"
  "threads (store_thread p t) = threads p @ [t]"
  "thread_ids (store_thread p t) = thread_ids p"
  "thread_id (store_thread p t) = thread_id p"
  "allowed_thread (store_thread p t) = allowed_thread p"
  "next_char (store_thread p t) = next_char p"
  "mutex_lock (store_thread p t) = mutex_lock p"
  by (simp_all add: store_thread_def)

lemma print_chars_Some:
  "print_chars p t = Some (out, p') \<Longrightarrow> p' = p\<lparr>next_char := next_char p + char_count p\<rparr>"
  by (auto simp add: print_chars_def split: option.splits)

lemma take_turn_Some:
  assumes "take_turn p t = Some (out, p')"
  shows "p' = p\<lparr>allowed_thread := allowed_thread p', next_char := next_char p'\<rparr>"
proof -
  from assms obtain q where q: "print_chars p t = Some (out, q)"
    and p': "p' = wrap_next_char (next_allowed_thread q)"
    by (auto simp add: take_turn_def split: option.splits)
  from print_chars_Some[OF q] p' show ?thesis
    by (simp add: wrap_next_char_def next_allowed_thread_def)
qed

lemma worker_step_frame:
  assumes "worker_step c t = Some c'"
  shows "main_pc c' = main_pc c"
    and "str (printer c') = str (printer c)"
    and "char_count (printer c') = char_count (printer c)"
    and "thread_count (printer c') = thread_count (printer c)"
    and "threads (printer c') = threads (printer c)"
    and "thread_ids (printer c') = thread_ids (printer c)"
    and "thread_id (printer c') = thread_id (printer c)"
    and "dom (workers c') = dom (workers c)"
  using assms
  by (cases rule: worker_step_cases; auto dest: print_chars_Some)+

lemma race_step_frame:
  assumes "race_step c t = Some c'"
  shows "printer c' = printer c" and "main_pc c' = main_pc c" and "turns c' = turns c"
    and "dom (workers c') = dom (workers c)"
  using race_step_Some[OF assms] by auto

lemma main_step_frame:
  assumes "main_step c t = Some c'"
  shows "str (printer c') = str (printer c)"
    and "char_count (printer c') = char_count (printer c)"
    and "thread_count (printer c') = thread_count (printer c)"
  using assms by (cases rule: main_step_cases; simp)+

lemma step_frame:
  assumes "step c e = Some c'"
  shows "str (printer c') = str (printer c)"
    and "char_count (printer c') = char_count (printer c)"
    and "thread_count (printer c') = thread_count (printer c)"
  using assms by (cases e; simp add: main_step_frame worker_step_frame race_step_frame)+

lemma exec_frame:
  "exec c es = Some c' \<Longrightarrow>
     str (printer c') = str (printer c) \<and> char_count (printer c') = char_count (printer c)
     \<and> thread_count (printer c') = thread_count (printer c)"
proof (induction es arbitrary: c)
  case Nil
  then show ?case by simp
next
  case (Cons e es)
  from Cons.prems obtain c1 where s: "step c e = Some c1" and r: "exec c1 es = Some c'"
    by (auto split: option.splits)
  from Cons.IH[OF r] step_frame[OF s] show ?case by simp
qed

lemma run_thread_count: "exec (run_init s cc n) es = Some c \<Longrightarrow> thread_count (printer c) = n"
  by (drule exec_frame) (simp add: run_init_def new_MyPrinter_def)

lemma exec_workers_frame:
  "list_all is_worker es \<Longrightarrow> exec c es = Some c' \<Longrightarrow>
     str (printer c') = str (printer c) \<and> char_count (printer c') = char_count (printer c)
     \<and> thread_count (printer c') = thread_count (printer c)
     \<and> thread_ids (printer c') = thread_ids (printer c)
     \<and> threads (printer c') = threads (printer c)
     \<and> thread_id (printer c') = thread_id (printer c)"
proof (induction es arbitrary: c)
  case Nil
  then show ?case by simp
next
  case (Cons e es)
  from Cons.prems(2) obtain c1 where s: "step c e = Some c1" and r: "exec c1 es = Some c'"
    by (auto split: option.splits)
  from Cons.prems(1) have "list_all is_worker es" by simp
  note ih = Cons.IH[OF this r]
  show ?case
  proof (cases e)
    case (Main t)
    with Cons.prems(1) show ?thesis by simp
  next
    case (Worker t)
    with s have "worker_step c t = Some c1" by simp
    from worker_step_frame[OF this] ih show ?thesis by simp
  next
    case (Race t)
    with s have "race_step c t = Some c1" by simp
    from race_step_frame(1)[OF this] ih show ?thesis by simp
  qed
qed

lemma exec_append:
  "exec c (es @ fs) = (case exec c es of None \<Rightarrow> None | Some c1 \<Rightarrow> exec c1 fs)"
  by (induction es arbitrary: c) (simp_all split: option.splits)

lemma observe_Some:
  "observe r t u = Some (p, m, ts, a, b) \<Longrightarrow>
     \<exists>c. r = Some c \<and> printer c = p \<and> main_pc c = m \<and> turns c = ts
         \<and> workers c t = a \<and> workers c u = b"
  by (auto simp add: observe_def split: option.splits)

section \<open>The invariants hold in every run\<close>

subsection \<open>The main thread\<close>

lemma main_inv_worker_step:
  "main_inv c \<Longrightarrow> worker_step c t = Some c' \<Longrightarrow> main_inv c'"
  by (simp add: main_inv_def worker_step_frame)

lemma main_inv_at_length: "main_inv_at pc n ids W \<Longrightarrow> int (length ids) \<le> max n 0"
  by (cases pc) auto

lemma main_inv_length:
  "main_inv c \<Longrightarrow> int (length (thread_ids (printer c))) \<le> max (sint (thread_count (printer c))) 0"
  by (auto simp add: main_inv_def dest: main_inv_at_length)

lemma main_inv_length_less: "main_inv c \<Longrightarrow> length (thread_ids (printer c)) < 2^31"
proof -
  assume "main_inv c"
  then have "int (length (thread_ids (printer c))) \<le> max (sint (thread_count (printer c))) 0"
    by (rule main_inv_length)
  moreover have "sint (thread_count (printer c)) < 2^31" by (rule sint_cint_bounds)
  ultimately have "int (length (thread_ids (printer c))) < 2^31" by simp
  then show ?thesis by simp
qed

lemma main_inv_main_step:
  assumes "main_inv c" "main_step c t = Some c'"
  shows "main_inv c'"
  using assms(2)
proof (cases rule: main_step_cases)
  case (spawn i)
  with assms(1) show ?thesis
    by (auto simp add: main_inv_def word_sless_alt)
next
  case (spawned i)
  with assms(1) show ?thesis
    by (auto simp add: main_inv_def word_sless_alt)
next
  case (print i t')
  with assms(1) show ?thesis by (simp add: main_inv_def)
next
  case (push_id i t')
  with assms(1) show ?thesis by (auto simp add: main_inv_def register_id_def)
next
  case (push_thread i t')
  with assms(1) have "i <s thread_count (printer c)"
    by (simp add: main_inv_def word_sless_alt)
  then have "sint (i + 1) = sint i + 1" by (rule sint_succ)
  with push_thread assms(1) show ?thesis
    by (simp add: main_inv_def store_thread_def)
next
  case (joined i)
  with assms(1) show ?thesis
    by (auto simp add: main_inv_def word_sless_alt)
qed

lemma main_inv_init: "main_inv (run_init s cc n)"
  by (simp add: main_inv_def run_init_def new_MyPrinter_def)

subsection \<open>The mutex\<close>

lemma lock_inv_holds:
  "lock_inv c \<Longrightarrow> workers c t = Some pc \<Longrightarrow> holds_mutex pc \<longleftrightarrow> mutex_lock (printer c) = Some t"
  by (simp add: lock_inv_def)

lemma lock_inv_unique:
  assumes "lock_inv c" "workers c t = Some pc" "holds_mutex pc"
    "workers c t' = Some pc'" "holds_mutex pc'"
  shows "t' = t"
  using lock_inv_holds[OF assms(1,2)] lock_inv_holds[OF assms(1,4)] assms(3,5) by simp

lemma lock_inv_worker_step:
  assumes "lock_inv c" "worker_step c t = Some c'"
  shows "lock_inv c'"
proof -
  obtain pc where w: "workers c t = Some pc" using worker_step_pc[OF assms(2)] by blast
  note h = lock_inv_holds[OF assms(1) w]
  from assms(2) show ?thesis
  proof (cases rule: worker_step_cases)
    case (print out p')
    then have "mutex_lock p' = mutex_lock (printer c)" by (auto dest: print_chars_Some)
    with print assms(1) w h show ?thesis by (auto simp add: lock_inv_def)
  qed (use assms(1) w h in \<open>auto simp add: lock_inv_def\<close>)
qed

lemma lock_inv_main_step:
  assumes "lock_inv c" "main_step c t = Some c'"
  shows "lock_inv c'"
  using assms(2)
  by (cases rule: main_step_cases) (use assms(1) in \<open>auto simp add: lock_inv_def\<close>)

lemma lock_inv_init: "lock_inv (run_init s cc n)"
  by (simp add: lock_inv_def run_init_def new_MyPrinter_def)

lemma in_turn_holds: "in_turn pc \<Longrightarrow> holds_mutex pc"
  by (cases pc) simp_all

subsection \<open>Leaving the barrier through the race\<close>

lemma main_inv_race_step:
  "main_inv c \<Longrightarrow> race_step c t = Some c' \<Longrightarrow> main_inv c'"
  by (simp add: main_inv_def race_step_frame)

lemma lock_inv_race_step:
  assumes "lock_inv c" "race_step c t = Some c'"
  shows "lock_inv c'"
proof -
  note r = race_step_Some[OF assms(2)]
  note h = lock_inv_holds[OF assms(1) r(1)]
  from assms(1) r h show ?thesis by (auto simp add: lock_inv_def)
qed

subsection \<open>The rotation\<close>

lemma mod_step: "0 < k \<Longrightarrow> 0 < n \<Longrightarrow> (int ((k - 1) mod n) + 1) mod int n = int (k mod n)"
proof -
  assume a: "0 < k" "0 < n"
  then obtain m where k: "k = Suc m" by (cases k) auto
  have "(int (m mod n) + 1) mod int n = int (Suc (m mod n) mod n)"
    by (simp add: zmod_int add.commute)
  also have "\<dots> = int (Suc m mod n)" by (simp only: mod_Suc_eq)
  finally show ?thesis using k by simp
qed

lemma turn_ok_idle:
  "turn_ok a n ids ts m hp \<Longrightarrow> hp \<noteq> Some WAdvance
   \<Longrightarrow> hp' \<noteq> Some WPrint \<Longrightarrow> hp' \<noteq> Some WAdvance \<Longrightarrow> turn_ok a n ids ts m' hp'"
  by (simp add: turn_ok_def)

lemma turn_ok_go:
  "turn_ok a n ids ts m hp \<Longrightarrow> hp \<noteq> Some WAdvance
   \<Longrightarrow> nat a < length ids \<Longrightarrow> m = Some (ids ! nat a) \<Longrightarrow> turn_ok a n ids ts m (Some WPrint)"
  by (simp add: turn_ok_def)

lemma turn_ok_print:
  assumes "turn_ok a n ids ts m (Some WPrint)" "int (length ids) \<le> max n 0" "m = Some t"
  shows "turn_ok a n ids (ts @ [t]) m (Some WAdvance)"
proof -
  from assms(1) have a: "a = int (length ts mod nat n)" and a0: "0 \<le> a"
    and l: "nat a < length ids" and mt: "m = Some (ids ! nat a)"
    and sl: "\<forall>j < length ts. j mod nat n < length ids"
    and ts: "ts = map (\<lambda>j. ids ! (j mod nat n)) [0..<length ts]"
    unfolding turn_ok_def by auto
  from mt assms(3) have t: "ids ! nat a = t" by simp
  from a have na: "nat a = length ts mod nat n" by simp
  from l assms(2) have n: "0 < n" by (cases "0 < n") auto
  from na l have k: "length ts mod nat n < length ids" by simp
  have sl': "\<forall>j < length (ts @ [t]). j mod nat n < length ids"
  proof (intro allI impI)
    fix j assume "j < length (ts @ [t])"
    then have "j < length ts \<or> j = length ts" by auto
    with sl k show "j mod nat n < length ids" by auto
  qed
  from na t have "ids ! (length ts mod nat n) = t" by simp
  with ts have ts': "ts @ [t] = map (\<lambda>j. ids ! (j mod nat n)) [0..<length (ts @ [t])]"
    by simp
  have adv: "a = int ((length (ts @ [t]) - 1) mod nat n)" using a by simp
  show ?thesis
    unfolding turn_ok_def
    using a0 n sl' ts' adv l mt by simp
qed

lemma turn_ok_advance_bounds:
  assumes "turn_ok a n ids ts m (Some WAdvance)"
  shows "0 \<le> a" and "a < n"
proof -
  from assms have a: "a = int ((length ts - 1) mod nat n)" and ts: "ts \<noteq> []"
    and n: "ts \<noteq> [] \<longrightarrow> 0 < n"
    unfolding turn_ok_def by auto
  from a show "0 \<le> a" by simp
  from ts n have "0 < nat n" by simp
  then have "(length ts - 1) mod nat n < nat n" by (rule mod_less_divisor)
  with a show "a < n" by linarith
qed

lemma turn_ok_advance:
  assumes "turn_ok a n ids ts m (Some WAdvance)" "a' = (a + 1) mod n"
  shows "turn_ok a' n ids ts m (Some WWrap)"
proof -
  from assms(1) have ts: "ts \<noteq> []" and n: "0 < n"
    and a: "a = int ((length ts - 1) mod nat n)"
    and sl: "\<forall>j < length ts. j mod nat n < length ids"
    and m: "ts = map (\<lambda>j. ids ! (j mod nat n)) [0..<length ts]"
    unfolding turn_ok_def by auto
  from n have pos: "0 < nat n" and nn: "int (nat n) = n" by simp_all
  from ts have k: "0 < length ts" by simp
  have "a' = int (length ts mod nat n)"
    using mod_step[OF k pos] a nn assms(2) by simp
  then show ?thesis
    unfolding turn_ok_def using n sl m by simp
qed

lemma turn_ok_push:
  assumes "turn_ok a n ids ts m hp"
  shows "turn_ok a n (ids @ [t]) ts m hp"
proof -
  from assms have sl: "\<forall>j < length ts. j mod nat n < length ids"
    and ts: "ts = map (\<lambda>j. ids ! (j mod nat n)) [0..<length ts]"
    unfolding turn_ok_def by auto
  have "map (\<lambda>j. (ids @ [t]) ! (j mod nat n)) [0..<length ts]
        = map (\<lambda>j. ids ! (j mod nat n)) [0..<length ts]"
    using sl by (intro map_cong) (simp_all add: nth_append)
  with ts have ts': "ts = map (\<lambda>j. (ids @ [t]) ! (j mod nat n)) [0..<length ts]" by simp
  from sl have sl': "\<forall>j < length ts. j mod nat n < length (ids @ [t])" by auto
  show ?thesis
    unfolding turn_ok_def
    using assms ts' sl' by (auto simp add: turn_ok_def nth_append)
qed

lemma holder_pc_simps:
  "holder_pc (set_pc c t pc) = (if mutex_lock (printer c) = Some t then Some pc else holder_pc c)"
  "holder_pc (set_mutex c None) = None"
  "holder_pc (set_mutex c (Some t)) = workers c t"
  by (simp_all add: holder_pc_def split: option.splits)

lemma holder_pc_printer:
  "mutex_lock p' = mutex_lock (printer c) \<Longrightarrow> holder_pc (c\<lparr>printer := p'\<rparr>) = holder_pc c"
  by (simp add: holder_pc_def split: option.splits)

lemma holder_pc_cong:
  "mutex_lock (printer c') = mutex_lock (printer c) \<Longrightarrow> workers c' = workers c
   \<Longrightarrow> holder_pc c' = holder_pc c"
  by (simp add: holder_pc_def split: option.splits)

lemma holder_pc_self:
  "lock_inv c \<Longrightarrow> workers c t = Some pc \<Longrightarrow> holds_mutex pc \<Longrightarrow> holder_pc c = Some pc"
  using lock_inv_holds[of c t pc] by (simp add: holder_pc_def)

lemma holder_pc_holds:
  assumes "lock_inv c" "holder_pc c = Some pc"
  shows "holds_mutex pc"
proof -
  from assms(2) obtain t where m: "mutex_lock (printer c) = Some t" and w: "workers c t = Some pc"
    by (auto simp add: holder_pc_def split: option.splits)
  with lock_inv_holds[OF assms(1) w] show ?thesis by simp
qed

lemma holder_pc_None_iff:
  assumes "lock_inv c"
  shows "holder_pc c = Some WAdvance \<longleftrightarrow> (\<exists>t. workers c t = Some WAdvance)"
proof
  assume "holder_pc c = Some WAdvance"
  then show "\<exists>t. workers c t = Some WAdvance"
    by (auto simp add: holder_pc_def split: option.splits)
next
  assume "\<exists>t. workers c t = Some WAdvance"
  then obtain t where "workers c t = Some WAdvance" ..
  from holder_pc_self[OF assms this] show "holder_pc c = Some WAdvance" by simp
qed

lemma turn_inv_init: "turn_inv (run_init s cc n)"
  by (simp add: turn_inv_def turn_ok_def run_init_def new_MyPrinter_def holder_pc_def)

lemma turn_inv_worker_step:
  assumes ti: "turn_inv c" and li: "lock_inv c" and mi: "main_inv c"
    and st: "worker_step c t = Some c'"
  shows "turn_inv c'"
proof -
  let ?a = "sint (allowed_thread (printer c))"
  let ?n = "sint (thread_count (printer c))"
  let ?ids = "thread_ids (printer c)"
  let ?m = "mutex_lock (printer c)"
  obtain pc where w: "workers c t = Some pc" using worker_step_pc[OF st] by blast
  note h = lock_inv_holds[OF li w]
  note hp = holder_pc_self[OF li w]
  from ti have ok: "turn_ok ?a ?n ?ids (turns c) ?m (holder_pc c)" by (simp add: turn_inv_def)
  then have a0: "0 \<le> ?a" by (simp add: turn_ok_def)
  from st show ?thesis
  proof (cases rule: worker_step_cases)
    case spin
    with ti show ?thesis by simp
  next
    case pass
    with ti w h show ?thesis by (simp add: turn_inv_def holder_pc_simps)
  next
    case sleep
    with ti w h show ?thesis by (simp add: turn_inv_def holder_pc_simps)
  next
    case lock
    then have "holder_pc c = None" by (simp add: holder_pc_def)
    with ok have "turn_ok ?a ?n ?ids (turns c) (Some t) (Some WWait)"
      by (intro turn_ok_idle[OF ok]) simp_all
    with lock show ?thesis by (simp add: turn_inv_def holder_pc_simps)
  next
    case go
    with w h hp have m: "?m = Some t" and p: "holder_pc c = Some WWait" by simp_all
    from wait_pred_Some[OF a0 go(2)] have "nat ?a < length ?ids" "t = ?ids ! nat ?a" by simp_all
    with m p have "turn_ok ?a ?n ?ids (turns c) ?m (Some WPrint)"
      by (intro turn_ok_go[OF ok]) simp_all
    with go m show ?thesis by (simp add: turn_inv_def holder_pc_simps)
  next
    case block
    with w h hp have m: "?m = Some t" and p: "holder_pc c = Some WWait" by simp_all
    then have "turn_ok ?a ?n ?ids (turns c) None None"
      by (intro turn_ok_idle[OF ok]) simp_all
    with block show ?thesis by (simp add: turn_inv_def holder_pc_simps)
  next
    case wake
    then have "holder_pc c = None" by (simp add: holder_pc_def)
    with ok have "turn_ok ?a ?n ?ids (turns c) (Some t) (Some WWait)"
      by (intro turn_ok_idle[OF ok]) simp_all
    with wake show ?thesis by (simp add: turn_inv_def holder_pc_simps)
  next
    case (print out p')
    with w h hp have m: "?m = Some t" and p: "holder_pc c = Some WPrint" by simp_all
    from print have p': "p' = (printer c)\<lparr>next_char := next_char (printer c) + char_count (printer c)\<rparr>"
      by (auto dest: print_chars_Some)
    from main_inv_length[OF mi] have "int (length ?ids) \<le> max ?n 0" .
    with ok p m have "turn_ok ?a ?n ?ids (turns c @ [t]) ?m (Some WAdvance)"
      by (intro turn_ok_print) simp_all
    with print(3) p' m show ?thesis by (simp add: turn_inv_def holder_pc_def)
  next
    case advance
    with w h hp have m: "?m = Some t" and p: "holder_pc c = Some WAdvance" by simp_all
    from ok p have "?a < ?n" by (intro turn_ok_advance_bounds(2)) simp
    from next_allowed_sint[OF a0 this] ok p
    have "turn_ok (sint (allowed_thread (next_allowed_thread (printer c)))) ?n ?ids (turns c) ?m
            (Some WWrap)"
      by (intro turn_ok_advance) simp_all
    with advance m show ?thesis by (simp add: turn_inv_def holder_pc_def)
  next
    case wrap
    with w h hp have m: "?m = Some t" and p: "holder_pc c = Some WWrap" by simp_all
    then have "turn_ok ?a ?n ?ids (turns c) ?m (Some WUnlock)"
      by (intro turn_ok_idle[OF ok]) simp_all
    with wrap m show ?thesis by (simp add: turn_inv_def holder_pc_def)
  next
    case unlock
    with w h hp have m: "?m = Some t" and p: "holder_pc c = Some WUnlock" by simp_all
    then have "turn_ok ?a ?n ?ids (turns c) None None"
      by (intro turn_ok_idle[OF ok]) simp_all
    with unlock show ?thesis by (simp add: turn_inv_def holder_pc_simps)
  next
    case notify
    with ti w h show ?thesis by (simp add: turn_inv_def holder_pc_simps)
  qed
qed

lemma turn_inv_race_step:
  assumes ti: "turn_inv c" and li: "lock_inv c" and st: "race_step c t = Some c'"
  shows "turn_inv c'"
proof -
  note r = race_step_Some[OF st]
  from lock_inv_holds[OF li r(1)] have "mutex_lock (printer c) \<noteq> Some t" by simp
  with r(2) have "holder_pc c' = holder_pc c" by (simp add: holder_pc_simps)
  with ti r(2) show ?thesis by (simp add: turn_inv_def)
qed

lemma turn_inv_main_step:
  assumes ti: "turn_inv c" and li: "lock_inv c"
    and st: "main_step c t = Some c'"
  shows "turn_inv c'"
  using st
proof (cases rule: main_step_cases)
  case (spawn i)
  from li spawn(3) have "mutex_lock (printer c) \<noteq> Some t" by (auto simp add: lock_inv_def)
  then have "holder_pc c' = holder_pc c" using spawn by (simp add: holder_pc_def split: option.splits)
  with ti spawn show ?thesis by (simp add: turn_inv_def)
next
  case (spawned i)
  then have "holder_pc c' = holder_pc c" by (intro holder_pc_cong) simp_all
  with ti spawned show ?thesis by (simp add: turn_inv_def)
next
  case (print i t')
  then have "holder_pc c' = holder_pc c" by (intro holder_pc_cong) simp_all
  with ti print show ?thesis by (simp add: turn_inv_def)
next
  case (push_id i t')
  then have h: "holder_pc c' = holder_pc c" by (intro holder_pc_cong) simp_all
  from ti have "turn_ok (sint (allowed_thread (printer c))) (sint (thread_count (printer c)))
      (thread_ids (printer c)) (turns c) (mutex_lock (printer c)) (holder_pc c)"
    by (simp add: turn_inv_def)
  from turn_ok_push[OF this] push_id h show ?thesis
    by (simp add: turn_inv_def register_id_def)
next
  case (push_thread i t')
  then have "holder_pc c' = holder_pc c" by (intro holder_pc_cong) simp_all
  with ti push_thread show ?thesis by (simp add: turn_inv_def)
next
  case (joined i)
  then have "holder_pc c' = holder_pc c" by (intro holder_pc_cong) simp_all
  with ti joined show ?thesis by (simp add: turn_inv_def)
qed

subsection \<open>Every run\<close>

lemma inv_step:
  assumes "run_inv c" "step c e = Some c'"
  shows "run_inv c'"
proof -
  from assms(1) have mi: "main_inv c" and li: "lock_inv c"
    and ti: "turn_inv c" by (simp_all add: run_inv_def)
  show ?thesis
  proof (cases e)
    case (Main t)
    with assms(2) have st: "main_step c t = Some c'" by simp
    show ?thesis
      unfolding run_inv_def
      using main_inv_main_step[OF mi st] lock_inv_main_step[OF li st]
        turn_inv_main_step[OF ti li st]
      by blast
  next
    case (Worker t)
    with assms(2) have st: "worker_step c t = Some c'" by simp
    show ?thesis
      unfolding run_inv_def
      using main_inv_worker_step[OF mi st] lock_inv_worker_step[OF li st]
        turn_inv_worker_step[OF ti li mi st]
      by blast
  next
    case (Race t)
    with assms(2) have st: "race_step c t = Some c'" by simp
    show ?thesis
      unfolding run_inv_def
      using main_inv_race_step[OF mi st] lock_inv_race_step[OF li st]
        turn_inv_race_step[OF ti li st]
      by blast
  qed
qed

lemma inv_exec: "run_inv c \<Longrightarrow> exec c es = Some c' \<Longrightarrow> run_inv c'"
proof (induction es arbitrary: c)
  case Nil
  then show ?case by simp
next
  case (Cons e es)
  from Cons.prems(2) obtain c1 where s: "step c e = Some c1" and r: "exec c1 es = Some c'"
    by (auto split: option.splits)
  from Cons.IH[OF inv_step[OF Cons.prems(1) s] r] show ?case .
qed

lemma inv_run:
  assumes "exec (run_init s cc n) es = Some c"
  shows "run_inv c"
proof -
  have "run_inv (run_init s cc n)"
    by (simp add: run_inv_def main_inv_init lock_inv_init turn_inv_init)
  from inv_exec[OF this assms] show ?thesis .
qed

subsection \<open>The table once it is complete\<close>

lemma ids_fixed_step:
  assumes "main_inv c"
    and "int (length (thread_ids (printer c))) = sint (thread_count (printer c))"
    and "step c e = Some c'"
  shows "thread_ids (printer c') = thread_ids (printer c)"
proof (cases e)
  case (Worker t)
  with assms(3) show ?thesis by (simp add: worker_step_frame)
next
  case (Race t)
  with assms(3) show ?thesis by (simp add: race_step_frame)
next
  case (Main t)
  with assms(3) have "main_step c t = Some c'" by simp
  then show ?thesis
  proof (cases rule: main_step_cases)
    case (push_id i t')
    with assms(1) have "int (length (thread_ids (printer c))) < sint (thread_count (printer c))"
      by (simp add: main_inv_def)
    with assms(2) show ?thesis by simp
  qed simp_all
qed

lemma ids_fixed_exec:
  "run_inv c \<Longrightarrow> int (length (thread_ids (printer c))) = sint (thread_count (printer c))
   \<Longrightarrow> exec c es = Some c' \<Longrightarrow> thread_ids (printer c') = thread_ids (printer c)"
proof (induction es arbitrary: c)
  case Nil
  then show ?case by simp
next
  case (Cons e es)
  from Cons.prems(3) obtain c1 where s: "step c e = Some c1" and r: "exec c1 es = Some c'"
    by (auto split: option.splits)
  from Cons.prems(1) have mi: "main_inv c" by (simp add: run_inv_def)
  have i: "thread_ids (printer c1) = thread_ids (printer c)"
    by (rule ids_fixed_step[OF mi Cons.prems(2) s])
  with Cons.prems(2) step_frame(3)[OF s]
  have "int (length (thread_ids (printer c1))) = sint (thread_count (printer c1))" by simp
  from Cons.IH[OF inv_step[OF Cons.prems(1) s] this r] i show ?case by simp
qed

lemma table_frozen:
  assumes "exec (run_init s cc n) sched = Some d" "all_threads_init (printer d)"
    "exec d fs = Some d'"
  shows "thread_ids (printer d') = thread_ids (printer d)"
proof -
  from inv_run[OF assms(1)] have ri: "run_inv d" .
  then have "main_inv d" by (simp add: run_inv_def)
  from all_threads_init_iff[OF main_inv_length_less[OF this]] assms(2)
  have "int (length (thread_ids (printer d))) = sint (thread_count (printer d))" by simp
  from ids_fixed_exec[OF ri this assms(3)] show ?thesis .
qed

section \<open>Lists and the driver\<close>

lemma length_concat_replicate: "length (concat (replicate m xs)) = m * length xs"
  by (induction m) simp_all

lemma nth_concat_replicate:
  "i < m * length xs \<Longrightarrow> concat (replicate m xs) ! i = xs ! (i mod length xs)"
proof (induction m arbitrary: i)
  case 0
  then show ?case by simp
next
  case (Suc m)
  show ?case
  proof (cases "i < length xs")
    case True
    then show ?thesis by (simp add: nth_append)
  next
    case False
    with Suc.prems have "i - length xs < m * length xs" by simp
    from Suc.IH[OF this] False show ?thesis by (simp add: nth_append le_mod_geq)
  qed
qed

lemma rotation_eq:
  assumes "ts = map (\<lambda>j. ids ! (j mod length ids)) [0..<length ts]" "ts \<noteq> [] \<longrightarrow> ids \<noteq> []"
  shows "ts = take (length ts) (concat (replicate (length ts) ids))"
proof (cases "ts = []")
  case True
  then show ?thesis by simp
next
  case False
  with assms(2) have pos: "0 < length ids" by simp
  then have le: "length ts \<le> length ts * length ids" by (cases "length ids") simp_all
  show ?thesis
  proof (rule nth_equalityI)
    show "length ts = length (take (length ts) (concat (replicate (length ts) ids)))"
      using le by (simp add: length_concat_replicate)
  next
    fix i assume i: "i < length ts"
    from i le have "i < length ts * length ids" by (rule less_le_trans)
    then have "concat (replicate (length ts) ids) ! i = ids ! (i mod length ids)"
      by (rule nth_concat_replicate)
    moreover have "ts ! i = ids ! (i mod length ids)"
      using i by (subst assms(1)) simp
    ultimately show "ts ! i = take (length ts) (concat (replicate (length ts) ids)) ! i"
      using i by simp
  qed
qed

lemma rotation_prefix:
  assumes ts: "ts = map (\<lambda>j. ids ! (j mod N)) [0..<length ts]"
    and sl: "\<forall>j < length ts. j mod N < length ids"
    and le: "length ids \<le> N"
  shows "ts = take (length ts) (concat (replicate (length ts) ids))"
proof (cases "length ids = N")
  case True
  have "ts \<noteq> [] \<longrightarrow> ids \<noteq> []"
  proof
    assume "ts \<noteq> []"
    then have "0 < length ts" by simp
    with sl have "0 mod N < length ids" by blast
    then show "ids \<noteq> []" by auto
  qed
  moreover from ts True have "ts = map (\<lambda>j. ids ! (j mod length ids)) [0..<length ts]" by simp
  ultimately show ?thesis by (intro rotation_eq)
next
  case False
  with le have lt: "length ids < N" by simp
  have k: "length ts \<le> length ids"
  proof (rule ccontr)
    assume "\<not> length ts \<le> length ids"
    then have "length ids < length ts" by simp
    with sl have "length ids mod N < length ids" by blast
    with lt show False by simp
  qed
  have "map (\<lambda>j. ids ! (j mod N)) [0..<length ts]
        = map (\<lambda>j. ids ! (j mod length ids)) [0..<length ts]"
    using k lt by (intro map_cong) simp_all
  with ts have e: "ts = map (\<lambda>j. ids ! (j mod length ids)) [0..<length ts]" by simp
  have "ts \<noteq> [] \<longrightarrow> ids \<noteq> []" using k by auto
  with e show ?thesis by (intro rotation_eq)
qed

lemma atoi_digits_no_digit: "no_digit_first cs \<Longrightarrow> atoi_digits cs acc = acc"
  by (cases cs) simp_all

lemma atoi_signed_no_digit: "no_digit_after_sign r \<Longrightarrow> atoi_signed r = 0"
  by (cases r) (auto simp add: atoi_digits_no_digit)

lemma atoi_no_leading_digit: "no_leading_digit s \<Longrightarrow> atoi s = 0"
  by (simp add: no_leading_digit_def atoi_def atoi_signed_no_digit)

lemma spawn_nothing:
  assumes "\<not> 0 <s n"
  shows "exec (run_init s cc n) [Main t, Main u]
         = Some ((run_init s cc n)\<lparr>main_pc := MExit 0\<rparr>)"
  using assms by (simp add: main_step_def run_init_def new_MyPrinter_def)

lemma spawn_first:
  assumes "0 <s n"
  shows "exec (run_init s cc n) [Main t]
         = Some ((run_init s cc n)\<lparr>workers := [t \<mapsto> WInit], main_pc := MPrint 0 t\<rparr>)"
  using assms by (simp add: main_step_def run_init_def new_MyPrinter_def)

section \<open>The rotation of the turns\<close>

text \<open>
  C1. In every run of the program the history of the turns is the table
  \<^verbatim>\<open>thread_ids\<close> repeated and cut to the number of turns taken: the turn number \<open>k\<close>
  (from 0) is taken by \<^verbatim>\<open>thread_ids[k mod N]\<close>, with no thread skipped and none
  repeated within a cycle. Whenever no worker stands between \<^verbatim>\<open>print_chars\<close> and the
  increment, \<^verbatim>\<open>allowed_thread\<close> is the number of turns taken modulo
  \<^verbatim>\<open>thread_count\<close>; and the increment of lines 131-133 moves it from \<open>a\<close> to
  \<open>(a + 1) mod thread_count\<close>.
\<close>

theorem strict_rotation:
  assumes "exec (run_init s cc n) sched = Some c"
  shows "turns c = take (length (turns c))
                     (concat (replicate (length (turns c)) (thread_ids (printer c))))
     \<and> ((\<forall>t. workers c t \<noteq> Some WAdvance)
          \<longrightarrow> sint (allowed_thread (printer c)) = int (length (turns c)) mod sint n)
     \<and> (\<forall>t c'. workers c t = Some WAdvance \<longrightarrow> worker_step c t = Some c'
          \<longrightarrow> sint (allowed_thread (printer c'))
              = (sint (allowed_thread (printer c)) + 1) mod sint n)"
proof -
  let ?a = "sint (allowed_thread (printer c))"
  let ?ids = "thread_ids (printer c)"
  from inv_run[OF assms] have li: "lock_inv c" and ti: "turn_inv c" and mi: "main_inv c"
    by (simp_all add: run_inv_def)
  have n: "thread_count (printer c) = n" by (rule run_thread_count[OF assms])
  from ti have ok: "turn_ok ?a (sint n) ?ids (turns c) (mutex_lock (printer c)) (holder_pc c)"
    by (simp add: turn_inv_def n)
  then have a0: "0 \<le> ?a" and pos: "turns c \<noteq> [] \<longrightarrow> 0 < sint n"
    and sl: "\<forall>j < length (turns c). j mod nat (sint n) < length ?ids"
    and log: "turns c = map (\<lambda>j. ?ids ! (j mod nat (sint n))) [0..<length (turns c)]"
    unfolding turn_ok_def by auto
  from main_inv_length[OF mi] n have le: "length ?ids \<le> nat (sint n)" by simp
  have 1: "turns c = take (length (turns c)) (concat (replicate (length (turns c)) ?ids))"
    by (rule rotation_prefix[OF log sl le])
  have 2: "(\<forall>t. workers c t \<noteq> Some WAdvance) \<longrightarrow> ?a = int (length (turns c)) mod sint n"
  proof
    assume "\<forall>t. workers c t \<noteq> Some WAdvance"
    with holder_pc_None_iff[OF li] have "holder_pc c \<noteq> Some WAdvance" by simp
    with ok have e: "?a = int (length (turns c) mod nat (sint n))" by (simp add: turn_ok_def)
    show "?a = int (length (turns c)) mod sint n"
    proof (cases "turns c = []")
      case True
      with e show ?thesis by simp
    next
      case False
      with pos have "int (nat (sint n)) = sint n" by simp
      with e show ?thesis by (simp only: zmod_int)
    qed
  qed
  have 3: "\<forall>t c'. workers c t = Some WAdvance \<longrightarrow> worker_step c t = Some c'
          \<longrightarrow> sint (allowed_thread (printer c')) = (?a + 1) mod sint n"
  proof (intro allI impI)
    fix t c' assume w: "workers c t = Some WAdvance" and st: "worker_step c t = Some c'"
    from holder_pc_self[OF li w] have "holder_pc c = Some WAdvance" by simp
    with ok have "?a < sint n" by (intro turn_ok_advance_bounds(2)) simp
    then have "?a < sint (thread_count (printer c))" using n by simp
    from next_allowed_sint[OF a0 this] w st n show
      "sint (allowed_thread (printer c')) = (?a + 1) mod sint n"
      by (auto simp add: worker_step_simps)
  qed
  from 1 2 3 show ?thesis by blast
qed

text \<open>
  A run of two workers in which four turns have been taken, and one in which worker
  \<open>10\<close> is about to increment \<^verbatim>\<open>allowed_thread\<close>.
\<close>

theorem strict_rotation_witness:
  "(\<exists>c. exec (run_init ''ABCDEFGH'' 3 2) two_workers_schedule = Some c
        \<and> thread_ids (printer c) = [10, 11]
        \<and> turns c = [10, 11, 10, 11]
        \<and> turns c = take 4 (concat (replicate 4 [10, 11]))
        \<and> (\<forall>t. workers c t \<noteq> Some WAdvance)
        \<and> sint (allowed_thread (printer c)) = 4 mod sint (2::cint))
   \<and> (\<exists>c c'. exec (run_init ''ABCDEFGH'' 3 2) advancing_schedule = Some c
        \<and> workers c 10 = Some WAdvance \<and> worker_step c 10 = Some c'
        \<and> sint (allowed_thread (printer c)) = 0
        \<and> sint (allowed_thread (printer c')) = (0 + 1) mod sint (2::cint))"
proof -
  have "observe (exec (run_init ''ABCDEFGH'' 3 2) two_workers_schedule) 10 11
        = Some ((registered ''ABCDEFGH'' 3 2 [10, 11])\<lparr>allowed_thread := 0, next_char := 4\<rparr>,
                MJoin 0, [10, 11, 10, 11], Some WInit, Some WInit)"
    by code_simp
  from observe_Some[OF this]
  obtain c where c: "exec (run_init ''ABCDEFGH'' 3 2) two_workers_schedule = Some c"
    "printer c = (registered ''ABCDEFGH'' 3 2 [10, 11])\<lparr>allowed_thread := 0, next_char := 4\<rparr>"
    "main_pc c = MJoin 0" "turns c = [10, 11, 10, 11]"
    "workers c 10 = Some WInit" "workers c 11 = Some WInit"
    by blast
  from c(2) have ids: "thread_ids (printer c) = [10, 11]" by (simp add: registered_def)
  from inv_run[OF c(1)] c(3) ids have "dom (workers c) = {10, 11}"
    by (auto simp add: run_inv_def main_inv_def)
  with c(5,6) have idle: "\<forall>t. workers c t \<noteq> Some WAdvance"
    by (metis domI insertE singletonD option.inject wpc.distinct(11))
  have len: "length (turns c) = 4" by (simp add: c(4))
  from strict_rotation[OF c(1)]
  have r1: "turns c = take (length (turns c))
                    (concat (replicate (length (turns c)) (thread_ids (printer c))))"
    and r2: "(\<forall>t. workers c t \<noteq> Some WAdvance)
          \<longrightarrow> sint (allowed_thread (printer c)) = int (length (turns c)) mod sint (2::cint)"
    by blast+
  from r1 have t4: "turns c = take 4 (concat (replicate 4 [10, 11]))" by (simp only: len ids)
  from r2 idle have "sint (allowed_thread (printer c)) = int (length (turns c)) mod sint (2::cint)"
    by blast
  then have a4: "sint (allowed_thread (printer c)) = 4 mod sint (2::cint)" by (simp add: len)
  from c ids idle t4 a4 have 1: "\<exists>c. exec (run_init ''ABCDEFGH'' 3 2) two_workers_schedule = Some c
        \<and> thread_ids (printer c) = [10, 11]
        \<and> turns c = [10, 11, 10, 11]
        \<and> turns c = take 4 (concat (replicate 4 [10, 11]))
        \<and> (\<forall>t. workers c t \<noteq> Some WAdvance)
        \<and> sint (allowed_thread (printer c)) = 4 mod sint (2::cint)" by blast
  have "observe (exec (run_init ''ABCDEFGH'' 3 2) advancing_schedule) 10 11
        = Some ((registered ''ABCDEFGH'' 3 2 [10, 11])\<lparr>next_char := 3, mutex_lock := Some 10\<rparr>,
                MJoin 0, [10], Some WAdvance, Some WInit)"
    by code_simp
  from observe_Some[OF this]
  obtain d where d: "exec (run_init ''ABCDEFGH'' 3 2) advancing_schedule = Some d"
    "printer d = (registered ''ABCDEFGH'' 3 2 [10, 11])\<lparr>next_char := 3, mutex_lock := Some 10\<rparr>"
    "workers d 10 = Some WAdvance"
    by blast
  from d(3) obtain d' where d': "worker_step d 10 = Some d'" by (simp add: worker_step_simps)
  from d(2) have a: "sint (allowed_thread (printer d)) = 0"
    by (simp add: registered_def new_MyPrinter_def)
  from strict_rotation[OF d(1)] d(3) d' a
  have "sint (allowed_thread (printer d')) = (0 + 1) mod sint (2::cint)" by auto
  with d d' a have 2: "\<exists>c c'. exec (run_init ''ABCDEFGH'' 3 2) advancing_schedule = Some c
        \<and> workers c 10 = Some WAdvance \<and> worker_step c 10 = Some c'
        \<and> sint (allowed_thread (printer c)) = 0
        \<and> sint (allowed_thread (printer c')) = (0 + 1) mod sint (2::cint)" by blast
  from 1 2 show ?thesis by (rule conjI)
qed

section \<open>The cursor and the reads when the chunk is longer than the sequence\<close>

text \<open>
  C2. The claim is that each turn moves the cursor from \<open>v\<close> to \<open>(v + C) mod L\<close>, so
  that it is \<open>(K * C) mod L\<close> after \<open>K\<close> turns and always below \<open>L\<close>. Lines 136-137
  subtract the length once. With the sequence \<open>AB\<close> (\<open>L = 2\<close>), chunk size 3 and one
  worker, the cursor is 1 after the first turn and 2 after the second, where
  \<open>(2 * 3) mod 2 = 0\<close>: it has left the range.
\<close>

theorem cursor_leaves_range:
  "cursor_after 1 (registered ''AB'' 3 1 [10]) = Some 1
   \<and> cursor_after 2 (registered ''AB'' 3 1 [10]) = Some 2
   \<and> str_length ''AB'' = 2"
  by code_simp

section \<open>Scenario: ABCDEFGH in chunks of 3 by 2 workers\<close>

text \<open>
  C3. With the sequence \<open>ABCDEFGH\<close>, chunk size 3 and two workers (threads \<open>10\<close> and
  \<open>11\<close>, registered in this order), the first four turns are taken by worker 0,
  worker 1, worker 0, worker 1, they write the chunks \<open>ABC\<close>, \<open>DEF\<close>, \<open>GHA\<close>, \<open>BCD\<close>,
  and the cursor moves from 0 to 3, to 6, to 1 (wrapping) and to 4. The same lines
  come out, after the two lines of \<^verbatim>\<open>run\<close>, when the program runs under a schedule
  in which the workers contend for the mutex.
\<close>

theorem first_four_turns:
  "acting (registered ''ABCDEFGH'' 3 2 [10, 11]) = Some 10
   \<and> take_turn (registered ''ABCDEFGH'' 3 2 [10, 11]) 10
       = Some ([OStr ''ThreadId '', OInt 0, OStr '' : '', OChar CHR ''A'', OChar CHR ''B'', OChar CHR ''C'', OEndl],
               (registered ''ABCDEFGH'' 3 2 [10, 11])\<lparr>allowed_thread := 1, next_char := 3\<rparr>)
   \<and> acting ((registered ''ABCDEFGH'' 3 2 [10, 11])\<lparr>allowed_thread := 1, next_char := 3\<rparr>)
       = Some 11
   \<and> take_turn ((registered ''ABCDEFGH'' 3 2 [10, 11])\<lparr>allowed_thread := 1, next_char := 3\<rparr>) 11
       = Some ([OStr ''ThreadId '', OInt 1, OStr '' : '', OChar CHR ''D'', OChar CHR ''E'', OChar CHR ''F'', OEndl],
               (registered ''ABCDEFGH'' 3 2 [10, 11])\<lparr>allowed_thread := 0, next_char := 6\<rparr>)
   \<and> acting ((registered ''ABCDEFGH'' 3 2 [10, 11])\<lparr>allowed_thread := 0, next_char := 6\<rparr>)
       = Some 10
   \<and> take_turn ((registered ''ABCDEFGH'' 3 2 [10, 11])\<lparr>allowed_thread := 0, next_char := 6\<rparr>) 10
       = Some ([OStr ''ThreadId '', OInt 0, OStr '' : '', OChar CHR ''G'', OChar CHR ''H'', OChar CHR ''A'', OEndl],
               (registered ''ABCDEFGH'' 3 2 [10, 11])\<lparr>allowed_thread := 1, next_char := 1\<rparr>)
   \<and> acting ((registered ''ABCDEFGH'' 3 2 [10, 11])\<lparr>allowed_thread := 1, next_char := 1\<rparr>)
       = Some 11
   \<and> take_turn ((registered ''ABCDEFGH'' 3 2 [10, 11])\<lparr>allowed_thread := 1, next_char := 1\<rparr>) 11
       = Some ([OStr ''ThreadId '', OInt 1, OStr '' : '', OChar CHR ''B'', OChar CHR ''C'', OChar CHR ''D'', OEndl],
               (registered ''ABCDEFGH'' 3 2 [10, 11])\<lparr>allowed_thread := 0, next_char := 4\<rparr>)
   \<and> run_turns 4 (registered ''ABCDEFGH'' 3 2 [10, 11])
       = Some ([OStr ''ThreadId '', OInt 0, OStr '' : '', OChar CHR ''A'', OChar CHR ''B'', OChar CHR ''C'', OEndl,
                OStr ''ThreadId '', OInt 1, OStr '' : '', OChar CHR ''D'', OChar CHR ''E'', OChar CHR ''F'', OEndl,
                OStr ''ThreadId '', OInt 0, OStr '' : '', OChar CHR ''G'', OChar CHR ''H'', OChar CHR ''A'', OEndl,
                OStr ''ThreadId '', OInt 1, OStr '' : '', OChar CHR ''B'', OChar CHR ''C'', OChar CHR ''D'', OEndl],
               (registered ''ABCDEFGH'' 3 2 [10, 11])\<lparr>allowed_thread := 0, next_char := 4\<rparr>)
   \<and> map_option cout (exec (run_init ''ABCDEFGH'' 3 2) two_workers_schedule)
       = Some ([OStr ''Thread '', OTid 10, OStr '' is '', OInt 0, OEndl,
                OStr ''Thread '', OTid 11, OStr '' is '', OInt 1, OEndl,
                OStr ''ThreadId '', OInt 0, OStr '' : '', OChar CHR ''A'', OChar CHR ''B'', OChar CHR ''C'', OEndl,
                OStr ''ThreadId '', OInt 1, OStr '' : '', OChar CHR ''D'', OChar CHR ''E'', OChar CHR ''F'', OEndl,
                OStr ''ThreadId '', OInt 0, OStr '' : '', OChar CHR ''G'', OChar CHR ''H'', OChar CHR ''A'', OEndl,
                OStr ''ThreadId '', OInt 1, OStr '' : '', OChar CHR ''B'', OChar CHR ''C'', OChar CHR ''D'', OEndl])
   \<and> map_option turns (exec (run_init ''ABCDEFGH'' 3 2) two_workers_schedule)
       = Some [10, 11, 10, 11]
   \<and> map_option printer (exec (run_init ''ABCDEFGH'' 3 2) two_workers_schedule)
       = Some ((registered ''ABCDEFGH'' 3 2 [10, 11])\<lparr>allowed_thread := 0, next_char := 4\<rparr>)"
  by code_simp

section \<open>Reads beyond the end of the sequence\<close>

text \<open>
  C4. The claim is that every read of the sequence is at a position below its length,
  also when the chunk is at least as long as the sequence. The second loop (lines
  177-179) does not wrap. With the sequence \<open>AB\<close>, chunk size 5 and one worker, the
  first turn reads the positions 0, 1, 0, 1 and 2, and position 2 is the length of
  the sequence.
\<close>

theorem read_beyond_the_end:
  "print_chars_reads (registered ''AB'' 5 1 [10]) = [0, 1, 0, 1, 2]
   \<and> length (str (registered ''AB'' 5 1 [10])) = 2"
  by code_simp

section \<open>Mutual exclusion\<close>

text \<open>
  C5. In every run, when a worker is at a statement of its turn (the call of
  \<^verbatim>\<open>print_chars\<close>, the increment of \<^verbatim>\<open>allowed_thread\<close>, the wrap of
  \<^verbatim>\<open>next_char\<close>), no other worker is at a statement of a turn, nor at any statement
  at which it would hold the mutex.
\<close>

theorem mutual_exclusion:
  assumes "exec (run_init s cc n) sched = Some c"
    and "workers c t = Some pc" and "in_turn pc"
    and "workers c t' = Some pc'" and "t' \<noteq> t"
  shows "\<not> in_turn pc' \<and> \<not> holds_mutex pc'"
proof -
  from inv_run[OF assms(1)] have li: "lock_inv c" by (simp add: run_inv_def)
  from assms(3) have "holds_mutex pc" by (rule in_turn_holds)
  with lock_inv_unique[OF li assms(2) _ assms(4)] assms(5) have "\<not> holds_mutex pc'" by auto
  then show ?thesis using in_turn_holds by blast
qed

text \<open>
  A run in which worker \<open>10\<close> is about to call \<^verbatim>\<open>print_chars\<close> while worker \<open>11\<close>
  is about to lock the mutex.
\<close>

theorem mutual_exclusion_witness:
  "\<exists>c. exec (run_init ''ABCDEFGH'' 3 2) contended_schedule = Some c
       \<and> workers c 10 = Some WPrint \<and> in_turn WPrint
       \<and> workers c 11 = Some WLock \<and> (11::nat) \<noteq> 10
       \<and> \<not> in_turn WLock \<and> \<not> holds_mutex WLock"
proof -
  have "observe (exec (run_init ''ABCDEFGH'' 3 2) contended_schedule) 10 11
        = Some ((registered ''ABCDEFGH'' 3 2 [10, 11])\<lparr>mutex_lock := Some 10\<rparr>,
                MJoin 0, [], Some WPrint, Some WLock)"
    by code_simp
  from observe_Some[OF this]
  obtain c where c: "exec (run_init ''ABCDEFGH'' 3 2) contended_schedule = Some c"
    "workers c 10 = Some WPrint" "workers c 11 = Some WLock"
    by blast
  from mutual_exclusion[OF c(1) c(2) _ c(3)] have "\<not> in_turn WLock \<and> \<not> holds_mutex WLock"
    by simp
  with c show ?thesis by auto
qed

section \<open>The barrier\<close>

text \<open>
  C6. The claim is that no worker takes a turn before \<^verbatim>\<open>thread_ids\<close> has
  \<^verbatim>\<open>thread_count\<close> entries. \<^verbatim>\<open>waitforallthreadinit\<close> is written to ensure it
  (lines 90-93), and its test reads \<^verbatim>\<open>thread_ids.size()\<close> with no lock and no atomic
  while \<^verbatim>\<open>run\<close> appends to the table. With the sequence \<open>ABCDEFGH\<close>, chunk size 3
  and two workers, worker \<open>10\<close> leaves the loop through this race when \<^verbatim>\<open>run\<close> has
  registered it alone: it locks the mutex, passes the predicate of \<^verbatim>\<open>cv.wait\<close>, as
  \<^verbatim>\<open>thread_ids[0]\<close> is its own identifier, and writes \<open>ABC\<close>. The turn is taken with
  one entry in the table, the worker count is 2, and the test of line 96 does not hold.
\<close>

theorem turn_before_table_complete:
  "observe (exec (run_init ''ABCDEFGH'' 3 2) early_turn_schedule) 10 11
     = Some ((new_MyPrinter ''ABCDEFGH'' 3 2)
               \<lparr>thread_ids := [10], next_char := 3, mutex_lock := Some 10\<rparr>,
             MPushThread 0 10, [10], Some WAdvance, None)
   \<and> map_option cout (exec (run_init ''ABCDEFGH'' 3 2) early_turn_schedule)
       = Some [OStr ''Thread '', OTid 10, OStr '' is '', OInt 0, OEndl,
               OStr ''ThreadId '', OInt 0, OStr '' : '',
               OChar CHR ''A'', OChar CHR ''B'', OChar CHR ''C'', OEndl]
   \<and> length (thread_ids ((new_MyPrinter ''ABCDEFGH'' 3 2)
               \<lparr>thread_ids := [10], next_char := 3, mutex_lock := Some 10\<rparr>)) = 1
   \<and> thread_count ((new_MyPrinter ''ABCDEFGH'' 3 2)
               \<lparr>thread_ids := [10], next_char := 3, mutex_lock := Some 10\<rparr>) = 2
   \<and> all_threads_init ((new_MyPrinter ''ABCDEFGH'' 3 2)
               \<lparr>thread_ids := [10], next_char := 3, mutex_lock := Some 10\<rparr>) = False"
  by code_simp

section \<open>No validation of the configuration\<close>

text \<open>
  C7. The claim is that an invalid configuration (chunk size at most 0, empty sequence,
  worker count at most 0) makes the construction fail before any worker thread starts.
  Neither the constructor nor \<^verbatim>\<open>main\<close> tests its values. With the empty sequence,
  chunk size 0 and one worker, \<^verbatim>\<open>main\<close> constructs the object and calls
  \<^verbatim>\<open>run\<close>, whose first step starts the worker thread \<open>10\<close>; nothing has been
  written.
\<close>

theorem invalid_configuration_runs:
  "main [''a.out'', '''', ''0'', ''1''] = Running (run_init '''' 0 1)
   \<and> observe (exec (run_init '''' 0 1) [Main 10]) 10 10
       = Some (new_MyPrinter '''' 0 1, MPrint 0 10, [], Some WInit, Some WInit)
   \<and> map_option cout (exec (run_init '''' 0 1) [Main 10]) = Some []"
proof -
  have a: "atoi ''0'' = 0" by code_simp
  have b: "atoi ''1'' = 1" by code_simp
  have "main [''a.out'', '''', ''0'', ''1''] = Running (run_init '''' 0 1)"
    using a b by (simp add: main_def)
  moreover have "observe (exec (run_init '''' 0 1) [Main 10]) 10 10
       = Some (new_MyPrinter '''' 0 1, MPrint 0 10, [], Some WInit, Some WInit)"
    by code_simp
  moreover have "map_option cout (exec (run_init '''' 0 1) [Main 10]) = Some []"
    by code_simp
  ultimately show ?thesis by simp
qed

text \<open>
  C7, as amended. With three arguments \<^verbatim>\<open>main\<close> always constructs the object
  and calls \<^verbatim>\<open>run\<close>; the constructor stores the sequence, the chunk size and the
  worker count as they are given, and nothing is written. With a worker count of at
  least 1 the first step of \<^verbatim>\<open>run\<close> starts a worker thread, whatever the sequence and
  the chunk size; with a worker count of at most 0 no thread is started and
  \<^verbatim>\<open>main\<close> returns 0.
\<close>

theorem no_validation:
  "main [a0, a1, a2, a3] = Running (run_init a1 (atoi a2) (atoi a3))
   \<and> printer (run_init s cc n) = new_MyPrinter s cc n
   \<and> str (new_MyPrinter s cc n) = s \<and> char_count (new_MyPrinter s cc n) = cc
   \<and> thread_count (new_MyPrinter s cc n) = n
   \<and> cout (run_init s cc n) = []
   \<and> (0 <s n
      \<longrightarrow> exec (run_init s cc n) [Main t]
          = Some ((run_init s cc n)\<lparr>workers := [t \<mapsto> WInit], main_pc := MPrint 0 t\<rparr>))
   \<and> (\<not> 0 <s n
      \<longrightarrow> exec (run_init s cc n) [Main t, Main u]
          = Some ((run_init s cc n)\<lparr>main_pc := MExit 0\<rparr>))"
proof -
  have 1: "main [a0, a1, a2, a3] = Running (run_init a1 (atoi a2) (atoi a3))"
    by (simp add: main_def)
  have 2: "printer (run_init s cc n) = new_MyPrinter s cc n
   \<and> str (new_MyPrinter s cc n) = s \<and> char_count (new_MyPrinter s cc n) = cc
   \<and> thread_count (new_MyPrinter s cc n) = n
   \<and> cout (run_init s cc n) = []"
    by (simp add: run_init_def new_MyPrinter_def)
  from 1 2 spawn_first[of n s cc t] spawn_nothing[of n s cc t u] show ?thesis by blast
qed

text \<open>
  The empty sequence with chunk size 0: one worker is started, and with no worker
  \<^verbatim>\<open>main\<close> returns 0.
\<close>

theorem no_validation_witness:
  "main [''a.out'', '''', ''0'', ''1''] = Running (run_init '''' 0 1)
   \<and> 0 <s (1::cint)
   \<and> exec (run_init '''' 0 1) [Main 10]
       = Some ((run_init '''' 0 1)\<lparr>workers := [10 \<mapsto> WInit], main_pc := MPrint 0 10\<rparr>)
   \<and> \<not> 0 <s (0::cint)
   \<and> exec (run_init '''' 0 0) [Main 10, Main 10]
       = Some ((run_init '''' 0 0)\<lparr>main_pc := MExit 0\<rparr>)"
proof -
  have a: "atoi ''0'' = 0" by code_simp
  have b: "atoi ''1'' = 1" by code_simp
  have p: "0 <s (1::cint)" by (simp add: word_sless_alt)
  have z: "\<not> 0 <s (0::cint)" by simp
  from no_validation[of "''a.out''" "''''" "''0''" "''1''" "''''" 0 1 10 10] p
  have "main [''a.out'', '''', ''0'', ''1''] = Running (run_init '''' (atoi ''0'') (atoi ''1''))"
    and 2: "exec (run_init '''' 0 1) [Main 10]
       = Some ((run_init '''' 0 1)\<lparr>workers := [10 \<mapsto> WInit], main_pc := MPrint 0 10\<rparr>)"
    by blast+
  then have 1: "main [''a.out'', '''', ''0'', ''1''] = Running (run_init '''' 0 1)"
    by (simp only: a b)
  from no_validation[of "''a.out''" "''''" "''0''" "''1''" "''''" 0 0 10 10] z
  have 3: "exec (run_init '''' 0 0) [Main 10, Main 10]
       = Some ((run_init '''' 0 0)\<lparr>main_pc := MExit 0\<rparr>)"
    by blast
  from 1 2 3 p z show ?thesis by blast
qed

section \<open>What a turn leaves unchanged\<close>

text \<open>
  C9. A turn (lines 128-137) changes the fields \<^verbatim>\<open>allowed_thread\<close> and
  \<^verbatim>\<open>next_char\<close> of the object and no other. Any sequence of steps of worker
  threads, so any number of iterations of \<^verbatim>\<open>print_thread\<close>, leaves the sequence,
  the chunk size, the worker count and the tables \<^verbatim>\<open>thread_ids\<close> and
  \<^verbatim>\<open>threads\<close> as they were. And once the table is complete in a run of the program
  (the test of line 96 holds), no step of any thread, the main thread included, changes
  \<^verbatim>\<open>thread_ids\<close>, the sequence, the chunk size or the worker count.
\<close>

theorem turn_frame:
  "(take_turn p t = Some (out, p')
      \<longrightarrow> p' = p\<lparr>allowed_thread := allowed_thread p', next_char := next_char p'\<rparr>)
   \<and> (list_all is_worker es \<and> exec c es = Some c'
      \<longrightarrow> str (printer c') = str (printer c) \<and> char_count (printer c') = char_count (printer c)
        \<and> thread_count (printer c') = thread_count (printer c)
        \<and> thread_ids (printer c') = thread_ids (printer c)
        \<and> threads (printer c') = threads (printer c)
        \<and> thread_id (printer c') = thread_id (printer c))
   \<and> (exec (run_init s cc n) sched = Some d \<and> all_threads_init (printer d)
        \<and> exec d fs = Some d'
      \<longrightarrow> thread_ids (printer d') = thread_ids (printer d)
        \<and> str (printer d') = str (printer d) \<and> char_count (printer d') = char_count (printer d)
        \<and> thread_count (printer d') = thread_count (printer d))"
  using take_turn_Some exec_workers_frame table_frozen exec_frame by blast

text \<open>
  The first turn of the scenario above, the first iteration of worker \<open>10\<close> in the
  run of two workers, and a run in which the main thread still stores a thread object
  after the table is complete and worker \<open>10\<close> has left the barrier.
\<close>

theorem turn_frame_witness:
  "(\<exists>out p'. take_turn (registered ''ABCDEFGH'' 3 2 [10, 11]) 10 = Some (out, p')
       \<and> p' = (registered ''ABCDEFGH'' 3 2 [10, 11])
                 \<lparr>allowed_thread := allowed_thread p', next_char := next_char p'\<rparr>
       \<and> allowed_thread p' = 1 \<and> next_char p' = 3)
   \<and> (\<exists>c c'. exec (run_init ''ABCDEFGH'' 3 2) startup_schedule = Some c
       \<and> list_all is_worker (one_iteration 10) \<and> exec c (one_iteration 10) = Some c'
       \<and> str (printer c') = str (printer c) \<and> char_count (printer c') = char_count (printer c)
       \<and> thread_count (printer c') = thread_count (printer c)
       \<and> thread_ids (printer c') = thread_ids (printer c)
       \<and> threads (printer c') = threads (printer c)
       \<and> thread_id (printer c') = thread_id (printer c)
       \<and> thread_ids (printer c') = [10, 11]
       \<and> next_char (printer c) = 0 \<and> next_char (printer c') = 3
       \<and> allowed_thread (printer c) = 0 \<and> allowed_thread (printer c') = 1)
   \<and> (\<exists>d d'. exec (run_init ''ABCDEFGH'' 3 2) early_pass_schedule = Some d
       \<and> all_threads_init (printer d) \<and> workers d 10 = Some WSleep
       \<and> exec d [Main 0, Main 0, Worker 10] = Some d'
       \<and> thread_ids (printer d') = thread_ids (printer d)
       \<and> thread_ids (printer d) = [10, 11]
       \<and> threads (printer d) = [10] \<and> threads (printer d') = [10, 11])"
proof -
  have e: "take_turn (registered ''ABCDEFGH'' 3 2 [10, 11]) 10
        = Some ([OStr ''ThreadId '', OInt 0, OStr '' : '', OChar CHR ''A'', OChar CHR ''B'', OChar CHR ''C'', OEndl],
                (registered ''ABCDEFGH'' 3 2 [10, 11])\<lparr>allowed_thread := 1, next_char := 3\<rparr>)"
    by code_simp
  from turn_frame[of "registered ''ABCDEFGH'' 3 2 [10, 11]" 10
      "[OStr ''ThreadId '', OInt 0, OStr '' : '', OChar CHR ''A'', OChar CHR ''B'', OChar CHR ''C'', OEndl]"
      "(registered ''ABCDEFGH'' 3 2 [10, 11])\<lparr>allowed_thread := 1, next_char := 3\<rparr>"] e
  have 1: "\<exists>out p'. take_turn (registered ''ABCDEFGH'' 3 2 [10, 11]) 10 = Some (out, p')
       \<and> p' = (registered ''ABCDEFGH'' 3 2 [10, 11])
                 \<lparr>allowed_thread := allowed_thread p', next_char := next_char p'\<rparr>
       \<and> allowed_thread p' = 1 \<and> next_char p' = 3"
    by simp
  have "observe (exec (run_init ''ABCDEFGH'' 3 2) startup_schedule) 10 11
        = Some (registered ''ABCDEFGH'' 3 2 [10, 11], MJoin 0, [], Some WInit, Some WInit)"
    by code_simp
  from observe_Some[OF this]
  obtain c where c: "exec (run_init ''ABCDEFGH'' 3 2) startup_schedule = Some c"
    "printer c = registered ''ABCDEFGH'' 3 2 [10, 11]"
    by blast
  have "observe (exec (run_init ''ABCDEFGH'' 3 2) (startup_schedule @ one_iteration 10)) 10 11
        = Some ((registered ''ABCDEFGH'' 3 2 [10, 11])\<lparr>allowed_thread := 1, next_char := 3\<rparr>,
                MJoin 0, [10], Some WInit, Some WInit)"
    by code_simp
  from observe_Some[OF this]
  obtain c' where c': "exec (run_init ''ABCDEFGH'' 3 2) (startup_schedule @ one_iteration 10) = Some c'"
    "printer c' = (registered ''ABCDEFGH'' 3 2 [10, 11])\<lparr>allowed_thread := 1, next_char := 3\<rparr>"
    by blast
  from c'(1) c(1) have x: "exec c (one_iteration 10) = Some c'" by (simp add: exec_append)
  have w: "list_all is_worker (one_iteration 10)" by (simp add: one_iteration_def list_all_iff)
  from turn_frame[of _ _ _ _ "one_iteration 10" c c'] w x
  have "str (printer c') = str (printer c) \<and> char_count (printer c') = char_count (printer c)
       \<and> thread_count (printer c') = thread_count (printer c)
       \<and> thread_ids (printer c') = thread_ids (printer c)
       \<and> threads (printer c') = threads (printer c)
       \<and> thread_id (printer c') = thread_id (printer c)" by blast
  moreover from c(2) c'(2) have "thread_ids (printer c') = [10, 11]"
    "next_char (printer c) = 0" "next_char (printer c') = 3"
    "allowed_thread (printer c) = 0" "allowed_thread (printer c') = 1"
    by (simp_all add: registered_def new_MyPrinter_def)
  ultimately have 2: "\<exists>c c'. exec (run_init ''ABCDEFGH'' 3 2) startup_schedule = Some c
       \<and> list_all is_worker (one_iteration 10) \<and> exec c (one_iteration 10) = Some c'
       \<and> str (printer c') = str (printer c) \<and> char_count (printer c') = char_count (printer c)
       \<and> thread_count (printer c') = thread_count (printer c)
       \<and> thread_ids (printer c') = thread_ids (printer c)
       \<and> threads (printer c') = threads (printer c)
       \<and> thread_id (printer c') = thread_id (printer c)
       \<and> thread_ids (printer c') = [10, 11]
       \<and> next_char (printer c) = 0 \<and> next_char (printer c') = 3
       \<and> allowed_thread (printer c) = 0 \<and> allowed_thread (printer c') = 1"
    using c(1) w x by blast
  have "observe (exec (run_init ''ABCDEFGH'' 3 2) early_pass_schedule) 10 11
        = Some ((registered ''ABCDEFGH'' 3 2 [10, 11])\<lparr>threads := [10]\<rparr>,
                MPushThread 1 11, [], Some WSleep, Some WInit)"
    by code_simp
  from observe_Some[OF this]
  obtain d where d: "exec (run_init ''ABCDEFGH'' 3 2) early_pass_schedule = Some d"
    "printer d = (registered ''ABCDEFGH'' 3 2 [10, 11])\<lparr>threads := [10]\<rparr>"
    "workers d 10 = Some WSleep"
    by blast
  have "observe (exec (run_init ''ABCDEFGH'' 3 2)
                  (early_pass_schedule @ [Main 0, Main 0, Worker 10])) 10 11
        = Some (registered ''ABCDEFGH'' 3 2 [10, 11], MJoin 0, [], Some WLock, Some WInit)"
    by code_simp
  from observe_Some[OF this]
  obtain d' where d': "exec (run_init ''ABCDEFGH'' 3 2)
                         (early_pass_schedule @ [Main 0, Main 0, Worker 10]) = Some d'"
    "printer d' = registered ''ABCDEFGH'' 3 2 [10, 11]"
    by blast
  from d'(1) d(1) have y: "exec d [Main 0, Main 0, Worker 10] = Some d'"
    by (simp only: exec_append option.case)
  have "all_threads_init ((registered ''ABCDEFGH'' 3 2 [10, 11])\<lparr>threads := [10]\<rparr>)"
    by code_simp
  with d(2) have ai: "all_threads_init (printer d)" by simp
  from turn_frame[of _ _ _ _ _ _ _ "''ABCDEFGH''" 3 2 early_pass_schedule d
      "[Main 0, Main 0, Worker 10]" d'] d(1) ai y
  have "thread_ids (printer d') = thread_ids (printer d)" by blast
  moreover from d(2) d'(2) have "thread_ids (printer d) = [10, 11]"
    "threads (printer d) = [10]" "threads (printer d') = [10, 11]"
    by (simp_all add: registered_def new_MyPrinter_def)
  ultimately have 3: "\<exists>d d'. exec (run_init ''ABCDEFGH'' 3 2) early_pass_schedule = Some d
       \<and> all_threads_init (printer d) \<and> workers d 10 = Some WSleep
       \<and> exec d [Main 0, Main 0, Worker 10] = Some d'
       \<and> thread_ids (printer d') = thread_ids (printer d)
       \<and> thread_ids (printer d) = [10, 11]
       \<and> threads (printer d) = [10] \<and> threads (printer d') = [10, 11]"
    using d(1) d(3) ai y by blast
  from 1 2 3 show ?thesis by blast
qed

section \<open>Arguments that are not numerals\<close>

text \<open>
  C10. The claim is that an argument that is not a decimal numeral is read as 0.
  \<^verbatim>\<open>atoi\<close> reads the digits an argument starts with: \<open>3x\<close> is not a decimal numeral
  and is read as 3, so that \<^verbatim>\<open>main\<close> runs with chunk size 3.
\<close>

theorem atoi_counterexample:
  "\<not> is_decimal_numeral ''3x'' \<and> atoi ''3x'' = 3
   \<and> main [''a.out'', ''AB'', ''3x'', ''1''] = Running (run_init ''AB'' 3 1)"
proof -
  have a: "atoi ''3x'' = 3" by code_simp
  have b: "atoi ''1'' = 1" by code_simp
  have c: "\<not> is_decimal_numeral ''3x''" by code_simp
  from a b c show ?thesis by (simp add: main_def)
qed

text \<open>
  C10, as amended. An argument in which no digit follows the leading white space and
  the optional sign is read as 0 by \<^verbatim>\<open>atoi\<close>. When the worker count is read as 0,
  \<^verbatim>\<open>main\<close> constructs the object, \<^verbatim>\<open>run\<close> starts no thread and \<^verbatim>\<open>main\<close>
  returns 0, with nothing written. When the chunk size is read as 0, \<^verbatim>\<open>main\<close>
  constructs the object with chunk size 0 and calls \<^verbatim>\<open>run\<close>, with nothing written.
\<close>

theorem atoi_zero_accepted:
  "(no_leading_digit a \<longrightarrow> atoi a = 0)
   \<and> (atoi a3 = 0
        \<longrightarrow> main [a0, a1, a2, a3] = Running (run_init a1 (atoi a2) 0)
          \<and> exec (run_init a1 (atoi a2) 0) [Main t, Main u]
              = Some ((run_init a1 (atoi a2) 0)\<lparr>main_pc := MExit 0\<rparr>)
          \<and> workers (run_init a1 (atoi a2) 0) = Map.empty
          \<and> cout (run_init a1 (atoi a2) 0) = [])
   \<and> (atoi a2 = 0
        \<longrightarrow> main [a0, a1, a2, a3] = Running (run_init a1 0 (atoi a3))
          \<and> char_count (printer (run_init a1 0 (atoi a3))) = 0
          \<and> cout (run_init a1 0 (atoi a3)) = [])"
proof -
  have z: "\<not> 0 <s (0::cint)" by simp
  have 1: "no_leading_digit a \<longrightarrow> atoi a = 0" using atoi_no_leading_digit by blast
  have 2: "atoi a3 = 0
        \<longrightarrow> main [a0, a1, a2, a3] = Running (run_init a1 (atoi a2) 0)
          \<and> exec (run_init a1 (atoi a2) 0) [Main t, Main u]
              = Some ((run_init a1 (atoi a2) 0)\<lparr>main_pc := MExit 0\<rparr>)
          \<and> workers (run_init a1 (atoi a2) 0) = Map.empty
          \<and> cout (run_init a1 (atoi a2) 0) = []"
    using spawn_nothing[OF z, of a1 "atoi a2" t u] by (simp add: main_def run_init_def)
  have 3: "atoi a2 = 0
        \<longrightarrow> main [a0, a1, a2, a3] = Running (run_init a1 0 (atoi a3))
          \<and> char_count (printer (run_init a1 0 (atoi a3))) = 0
          \<and> cout (run_init a1 0 (atoi a3)) = []"
    by (simp add: main_def run_init_def new_MyPrinter_def)
  from 1 2 3 show ?thesis by blast
qed

text \<open>
  The arguments \<open>AB\<close>, \<open>x\<close> and \<open>abc\<close>.
\<close>

theorem atoi_zero_accepted_witness:
  "no_leading_digit ''abc'' \<and> atoi ''abc'' = 0 \<and> atoi ''x'' = 0
   \<and> main [''a.out'', ''AB'', ''x'', ''abc''] = Running (run_init ''AB'' 0 0)
   \<and> exec (run_init ''AB'' 0 0) [Main 10, Main 10]
       = Some ((run_init ''AB'' 0 0)\<lparr>main_pc := MExit 0\<rparr>)
   \<and> workers (run_init ''AB'' 0 0) = Map.empty
   \<and> cout (run_init ''AB'' 0 0) = []
   \<and> char_count (printer (run_init ''AB'' 0 0)) = 0"
proof -
  note T = atoi_zero_accepted[of "''abc''" "''abc''" "''a.out''" "''AB''" "''x''" 10 10]
  have a: "no_leading_digit ''abc''" by code_simp
  with T have b: "atoi ''abc'' = 0" by blast
  have c: "atoi ''x'' = 0" by code_simp
  from T b have "main [''a.out'', ''AB'', ''x'', ''abc''] = Running (run_init ''AB'' (atoi ''x'') 0)
          \<and> exec (run_init ''AB'' (atoi ''x'') 0) [Main 10, Main 10]
              = Some ((run_init ''AB'' (atoi ''x'') 0)\<lparr>main_pc := MExit 0\<rparr>)
          \<and> workers (run_init ''AB'' (atoi ''x'') 0) = Map.empty
          \<and> cout (run_init ''AB'' (atoi ''x'') 0) = []" by blast
  then have 2: "main [''a.out'', ''AB'', ''x'', ''abc''] = Running (run_init ''AB'' 0 0)
          \<and> exec (run_init ''AB'' 0 0) [Main 10, Main 10]
              = Some ((run_init ''AB'' 0 0)\<lparr>main_pc := MExit 0\<rparr>)
          \<and> workers (run_init ''AB'' 0 0) = Map.empty
          \<and> cout (run_init ''AB'' 0 0) = []" by (simp only: c)
  from T c have "char_count (printer (run_init ''AB'' 0 (atoi ''abc''))) = 0" by blast
  then have 3: "char_count (printer (run_init ''AB'' 0 0)) = 0" by (simp only: b)
  from a b c 2 3 show ?thesis by blast
qed

end
